theory Spec2Isabelle
  imports Complex_Main "HOL-Library.Multiset"
begin

section \<open>Exceptions\<close>

text \<open>
  The Python exceptions the modelled functions can raise. A function that may raise
  returns \<open>py_error + 'a\<close>, with \<open>Inl\<close> for the exception. \<open>PyException\<close> is the
  base class \<^verbatim>\<open>Exception\<close>, which weather.py raises directly;
  \<open>ParamValidationError\<close> is the exception of the AWS client for a request parameter
  outside of its range.
\<close>

datatype py_error =
    ValueError
  | ZeroDivisionError
  | TypeError
  | AttributeError
  | OverflowError
  | ParamValidationError
  | PyException

section \<open>AWSArtifactAgent: artifact\_utils.py\<close>

text \<open>
  A Python \<^verbatim>\<open>str\<close> is the list of its Unicode code points, so that \<open>length\<close> is
  Python's \<^verbatim>\<open>len\<close> and \<open>take n\<close> is the slice \<^verbatim>\<open>[:n]\<close>. \<open>py_str\<close> is the string
  of an ASCII literal of the code.
\<close>

type_synonym pystr = "nat list"

definition py_str :: "string \<Rightarrow> pystr" where
  "py_str s = map of_char s"

text \<open>
  A report of the catalog, as the service lists it; the code reads the four entries
  \<^verbatim>\<open>id\<close>, \<^verbatim>\<open>name\<close>, \<^verbatim>\<open>version\<close> and \<^verbatim>\<open>description\<close>.
\<close>

record report =
  r_id :: pystr
  r_name :: pystr
  r_version :: int
  r_description :: pystr

text \<open>The dictionary \<^verbatim>\<open>list_reports\<close> builds for a report.\<close>

record list_entry =
  le_id :: pystr
  le_name :: pystr
  le_version :: int
  le_description :: pystr

text \<open>
  \<^verbatim>\<open>''.join([report['description'][:100], '...' if len(report['description']) > 100 else ''])\<close>
\<close>

definition truncate_description :: "pystr \<Rightarrow> pystr" where
  "truncate_description d = take 100 d @ (if length d > 100 then py_str ''...'' else [])"

definition reshape :: "report \<Rightarrow> list_entry" where
  "reshape r =
     \<lparr> le_id = r_id r, le_name = r_name r, le_version = r_version r,
       le_description = truncate_description (r_description r) \<rparr>"

text \<open>
  What iterating \<^verbatim>\<open>self.paginator.paginate(...)\<close> yields: at every step a page of
  reports, or the exception the request raises. The paginator itself, a function of
  the \<^verbatim>\<open>PageSize\<close> of the \<^verbatim>\<open>PaginationConfig\<close> it is called with (\<open>None\<close>
  when the call names none), is the AWS client: an input of the functions below.
\<close>

type_synonym page_iterator = "(py_error + report list) list"

text \<open>
  The loop \<^verbatim>\<open>for page in page_iterator\<close> of \<^verbatim>\<open>list_reports\<close>: it stops at the page
  whose count equals \<^verbatim>\<open>page_number\<close>, runs out of pages, or ends with the exception
  of a request.
\<close>

fun find_page :: "page_iterator \<Rightarrow> int \<Rightarrow> int \<Rightarrow> py_error + report list option" where
  "find_page [] page_count page_number = Inr None"
| "find_page (Inl e # rest) page_count page_number = Inl e"
| "find_page (Inr page # rest) page_count page_number =
     (if page_count = page_number then Inr (Some page)
      else find_page rest (page_count + 1) page_number)"

text \<open>Running through all pages, as a comprehension over the paginator does.\<close>

fun fetch_all :: "page_iterator \<Rightarrow> py_error + report list list" where
  "fetch_all [] = Inr []"
| "fetch_all (Inl e # rest) = Inl e"
| "fetch_all (Inr page # rest) =
     (case fetch_all rest of Inl e \<Rightarrow> Inl e | Inr pages \<Rightarrow> Inr (page # pages))"

text \<open>
  \<^verbatim>\<open>list_reports(page_size, page_number)\<close>; \<open>dumps\<close> is \<^verbatim>\<open>json.dumps\<close>. Both
  arguments may be \<^verbatim>\<open>None\<close>. \<^verbatim>\<open>next(page_iterator, None)\<close> fetches the first page.
\<close>

definition list_reports ::
  "(list_entry list \<Rightarrow> 'j) \<Rightarrow> (int option \<Rightarrow> page_iterator) \<Rightarrow> int option \<Rightarrow> int option
     \<Rightarrow> py_error + 'j" where
  "list_reports dumps paginator page_size page_number =
     (let default_max_results = 10 in
      if page_size \<noteq> None \<and> the page_size > default_max_results then Inl ValueError
      else
        (let page_iterator = paginator page_size in
         if page_number = None \<or> page_number = Some 1 then
           (case page_iterator of
              [] \<Rightarrow> Inr (dumps [])
            | Inl e # _ \<Rightarrow> Inl e
            | Inr page # _ \<Rightarrow> Inr (dumps (map reshape page)))
         else
           (case find_page page_iterator 1 (the page_number) of
              Inl e \<Rightarrow> Inl e
            | Inr (Some page) \<Rightarrow> Inr (dumps (map reshape page))
            | Inr None \<Rightarrow> Inr (dumps []))))"

text \<open>
  \<^verbatim>\<open>get_total_report_pages(page_size)\<close>. The pages are fetched before the division.
  \<^verbatim>\<open>total_reports / page_size\<close> is the true division of two integers: the quotient
  rounded to a float, \<open>fl\<close> being the rounding.
\<close>

definition get_total_report_pages ::
  "(real \<Rightarrow> real) \<Rightarrow> (int option \<Rightarrow> page_iterator) \<Rightarrow> int option \<Rightarrow> py_error + int" where
  "get_total_report_pages fl paginator page_size =
     (let default_max_results = 15 in
      if page_size \<noteq> None \<and> the page_size > default_max_results then Inl ValueError
      else
        (case fetch_all (paginator page_size) of
           Inl e \<Rightarrow> Inl e
         | Inr pages \<Rightarrow>
             (let total_reports = int (sum_list (map length pages)) in
              case page_size of
                None \<Rightarrow> Inl TypeError
              | Some ps \<Rightarrow>
                  if ps = 0 then Inl ZeroDivisionError
                  else Inr \<lceil>fl (real_of_int total_reports / real_of_int ps)\<rceil>)))"

subsection \<open>The AWS client\<close>

text \<open>
  A catalog cut into consecutive pages of \<open>n\<close> reports, the last one shorter, and
  always at least one page.
\<close>

function paginate :: "nat \<Rightarrow> 'a list \<Rightarrow> 'a list list" where
  "paginate n xs =
     (if n = 0 \<or> length xs \<le> n then [xs] else take n xs # paginate n (drop n xs))"
  by pat_completeness auto
termination
  by (relation "measure (\<lambda>(n, xs). length xs)") auto

declare paginate.simps [simp del]

text \<open>
  The paginator of the AWS client for \<^verbatim>\<open>list_reports\<close> of the Artifact service, over a
  catalog: the page size is the parameter \<^verbatim>\<open>maxResults\<close> of the request, which the
  client validates against the range from 1 to 300 of the service (ParamValidationError
  outside of it); without a page size the service takes its own \<open>default_size\<close>.
\<close>

definition client_paginate :: "nat \<Rightarrow> report list \<Rightarrow> int option \<Rightarrow> page_iterator" where
  "client_paginate default_size catalog page_size =
     (case page_size of
        None \<Rightarrow> map Inr (paginate default_size catalog)
      | Some n \<Rightarrow>
          if n < 1 \<or> 300 < n then [Inl ParamValidationError]
          else map Inr (paginate (nat n) catalog))"

text \<open>
  The rounding of a real to the nearest float (binary64): integers up to \<open>2^53\<close> are
  floats, and in the normal range the relative error is at most \<open>2^-53\<close>.
\<close>

definition float_rounding :: "(real \<Rightarrow> real) \<Rightarrow> bool" where
  "float_rounding fl =
     ((\<forall>n::int. \<bar>n\<bar> \<le> 2 ^ 53 \<longrightarrow> fl (of_int n) = of_int n)
      \<and> (\<forall>x. 1 / 2 ^ 1022 \<le> \<bar>x\<bar> \<and> \<bar>x\<bar> \<le> 2 ^ 1023 \<longrightarrow> \<bar>fl x - x\<bar> \<le> \<bar>x\<bar> / 2 ^ 53))"

subsection \<open>Pages of the catalog\<close>

lemma fetch_all_pages [simp]: "fetch_all (map Inr pages) = Inr pages"
  by (induction pages) simp_all

lemma concat_paginate: "concat (paginate n xs) = xs"
proof (induction n xs rule: paginate.induct)
  case (1 n xs)
  show ?case
  proof (cases "n = 0 \<or> length xs \<le> n")
    case True
    then show ?thesis by (subst paginate.simps) simp
  next
    case False
    with "1.IH" show ?thesis by (subst paginate.simps) simp
  qed
qed

lemma total_paginate: "sum_list (map length (paginate n xs)) = length xs"
  using arg_cong [OF concat_paginate [of n xs], of length] by (simp add: length_concat)

lemma find_page_paginate:
  "0 < n \<Longrightarrow>
   find_page (map Inr (paginate n xs)) c (c + int k) =
     Inr (if k = 0 \<or> k * n < length xs then Some (take n (drop (k * n) xs)) else None)"
proof (induction k arbitrary: xs c)
  case 0
  then show ?case by (subst paginate.simps) simp
next
  case (Suc k)
  show ?case
  proof (cases "length xs \<le> n")
    case True
    then have "\<not> Suc k * n < length xs"
      by (metis le_add1 le_trans mult_Suc not_less)
    with True show ?thesis by (subst paginate.simps) simp
  next
    case False
    have step: "find_page (map Inr (paginate n (drop n xs))) (c + 1) (c + 1 + int k) =
        Inr (if k = 0 \<or> k * n < length (drop n xs)
             then Some (take n (drop (k * n) (drop n xs))) else None)"
      using Suc.IH [OF Suc.prems] .
    have eq: "c + 1 + int k = c + int (Suc k)" by simp
    have lt: "(k = 0 \<or> k * n < length (drop n xs)) = (Suc k * n < length xs)"
      using False Suc.prems by (cases k) auto
    have dr: "drop (k * n) (drop n xs) = drop (Suc k * n) xs"
      by (simp add: add.commute)
    show ?thesis
      using False Suc.prems step lt dr
      by (subst paginate.simps) (simp add: eq del: of_nat_Suc)
  qed
qed

lemma length_le_paginate:
  "0 < n \<Longrightarrow> length xs \<le> length (paginate n xs) * n"
proof (induction n xs rule: paginate.induct)
  case (1 n xs)
  show ?case
  proof (cases "length xs \<le> n")
    case True
    then show ?thesis by (subst paginate.simps) simp
  next
    case False
    with "1.prems" have "length (drop n xs) \<le> length (paginate n (drop n xs)) * n"
      using "1.IH" by simp
    with False "1.prems" show ?thesis by (subst paginate.simps) simp
  qed
qed

lemma find_page_prefix:
  "find_page (map Inr before @ Inr page # rest) c (c + int (length before)) =
     Inr (Some page)"
proof (induction before arbitrary: c)
  case Nil
  then show ?case by simp
next
  case (Cons p before)
  have "c + int (length (p # before)) = (c + 1) + int (length before)" by simp
  with Cons [of "c + 1"] show ?case by (simp add: add.assoc)
qed

subsection \<open>Rounding the quotient\<close>

lemma ceiling_rounded_quotient:
  assumes fl: "float_rounding fl" and t: "0 \<le> t" "t < 2 ^ 48" and p: "1 \<le> p" "p \<le> 15"
  shows "\<lceil>fl (real_of_int t / real_of_int p)\<rceil> = \<lceil>real_of_int t / real_of_int p\<rceil>"
proof (cases "p dvd t")
  case True
  then have x: "real_of_int t / real_of_int p = of_int (t div p)"
    by (simp add: real_of_int_div)
  have "0 \<le> t div p" using t p by (simp add: pos_imp_zdiv_nonneg_iff)
  moreover have "t div p \<le> t" using zdiv_mono2 [of t 1 p] t p by simp
  ultimately have "\<bar>t div p\<bar> \<le> 2 ^ 53" using t by simp
  then have "fl (of_int (t div p)) = of_int (t div p)"
    using fl by (simp add: float_rounding_def)
  then show ?thesis by (simp only: x)
next
  case False
  define q where "q = t div p"
  define r where "r = t mod p"
  define x where "x = real_of_int t / real_of_int p"
  have pp: "0 < p" using p by simp
  have "t mod p \<noteq> 0" using False by (simp add: dvd_eq_mod_eq_0)
  moreover have "0 \<le> t mod p" "t mod p < p"
    using pp by (rule pos_mod_sign, rule pos_mod_bound)
  ultimately have r: "1 \<le> r" "r \<le> p - 1" by (simp_all add: r_def)
  have tq: "t = q * p + r" by (simp add: q_def r_def)
  have ppos: "0 < real_of_int p" using p by simp
  define u where "u = 1 / real_of_int p"
  define v where "v = real_of_int r / real_of_int p"
  have xq: "x = of_int q + v"
    using ppos by (simp add: x_def v_def tq field_simps)
  have p15: "1 / 15 \<le> u"
    using p by (simp add: u_def field_simps)
  have rp_lo: "u \<le> v"
    unfolding u_def v_def using r ppos by (intro divide_right_mono) simp_all
  have rp_hi: "v \<le> 1 - u"
  proof -
    have "real_of_int r / real_of_int p \<le> (real_of_int p - 1) / real_of_int p"
      using r ppos by (intro divide_right_mono) simp_all
    also have "\<dots> = 1 - 1 / real_of_int p" using ppos by (simp add: field_simps)
    finally show ?thesis by (simp only: u_def v_def)
  qed
  have q0: "0 \<le> real_of_int q" using t p by (simp add: q_def pos_imp_zdiv_nonneg_iff)
  have x_lo: "1 / 15 \<le> x" using xq rp_lo p15 q0 by linarith
  have x_hi: "x < 2 ^ 48"
  proof -
    have "real_of_int t / real_of_int p \<le> real_of_int t / 1"
      using t p by (intro divide_left_mono) simp_all
    then have "x \<le> real_of_int t" by (simp add: x_def)
    also have "\<dots> < 2 ^ 48" using t by (metis of_int_less_numeral_power_cancel_iff)
    finally show ?thesis .
  qed
  have lo: "1 / 2 ^ 1022 \<le> \<bar>x\<bar>"
  proof -
    have "(2::real) ^ 4 \<le> 2 ^ 1022" by (rule power_increasing) simp_all
    then have "1 / (2::real) ^ 1022 \<le> 1 / 2 ^ 4" by (intro divide_left_mono) simp_all
    also have "\<dots> \<le> 1 / 15" by simp
    finally show ?thesis using x_lo by linarith
  qed
  have hi: "\<bar>x\<bar> \<le> 2 ^ 1023"
  proof -
    have "(2::real) ^ 48 \<le> 2 ^ 1023" by (rule power_increasing) simp_all
    then show ?thesis using x_hi x_lo by linarith
  qed
  have "\<bar>fl x - x\<bar> \<le> \<bar>x\<bar> / 2 ^ 53"
    using fl lo hi unfolding float_rounding_def by blast
  also have "\<dots> < 2 ^ 48 / 2 ^ 53"
  proof (rule divide_strict_right_mono)
    show "\<bar>x\<bar> < 2 ^ 48" using x_hi x_lo by linarith
    show "(0::real) < 2 ^ 53" by simp
  qed
  also have "\<dots> = (1::real) / 32" by simp
  finally have err: "\<bar>fl x - x\<bar> < 1 / 32" .
  have q1: "real_of_int (q + 1) = real_of_int q + 1" by simp
  have above: "of_int (q + 1) - 1 < fl x"
    unfolding q1 using err xq rp_lo p15 by linarith
  have below: "fl x \<le> of_int (q + 1)"
    unfolding q1 using err xq rp_hi p15 by linarith
  have "\<lceil>fl x\<rceil> = q + 1" using above below by (rule ceiling_unique)
  moreover have "\<lceil>x\<rceil> = q + 1"
  proof (rule ceiling_unique)
    show "of_int (q + 1) - 1 < x" unfolding q1 using xq rp_lo p15 by linarith
    show "x \<le> of_int (q + 1)" unfolding q1 using xq rp_hi p15 by linarith
  qed
  ultimately show ?thesis by (simp add: x_def)
qed

lemma reshape_explicit:
  "reshape =
     (\<lambda>r. \<lparr> le_id = r_id r, le_name = r_name r, le_version = r_version r,
            le_description =
              (if 100 < length (r_description r)
               then take 100 (r_description r) @ py_str ''...''
               else r_description r) \<rparr>)"
  by (rule ext) (simp add: reshape_def truncate_description_def)

subsection \<open>Truncated descriptions\<close>

text \<open>
  C5. Every report of the page that \<^verbatim>\<open>list_reports\<close> returns comes back with its id,
  name and version and with the description cut: the first 100 characters of the
  original followed by three dots when the original is longer than 100 characters, and
  the original, unchanged, when it has at most 100 characters. The page is the first
  one when \<^verbatim>\<open>page_number\<close> is \<^verbatim>\<open>None\<close> or 1, and the one the loop stops at
  otherwise.
\<close>

theorem list_reports_description:
  assumes "page_size = None \<or> (\<exists>ps. page_size = Some ps \<and> ps \<le> 10)"
    and "paginator page_size = map Inr before @ Inr page # rest"
    and "page_number = Some (int (length before) + 1) \<or> (page_number = None \<and> before = [])"
  shows "list_reports dumps paginator page_size page_number =
           Inr (dumps (map (\<lambda>r. \<lparr> le_id = r_id r, le_name = r_name r,
                                   le_version = r_version r,
                                   le_description =
                                     (if 100 < length (r_description r)
                                      then take 100 (r_description r) @ py_str ''...''
                                      else r_description r) \<rparr>) page))"
proof -
  have guard: "\<not> (page_size \<noteq> None \<and> 10 < the page_size)"
    using assms(1) by auto
  show ?thesis
  proof (cases "before = []")
    case True
    then have "page_number = None \<or> page_number = Some 1" using assms(3) by auto
    then show ?thesis
      using guard assms(2) True
      by (auto simp: list_reports_def Let_def reshape_explicit)
  next
    case False
    then have pn: "page_number = Some (1 + int (length before))"
      and ne: "page_number \<noteq> None" "page_number \<noteq> Some 1"
      using assms(3) by auto
    have "find_page (paginator page_size) 1 (1 + int (length before)) = Inr (Some page)"
      unfolding assms(2) by (rule find_page_prefix)
    then show ?thesis
      using guard ne pn by (simp add: list_reports_def Let_def reshape_explicit)
  qed
qed

definition example_catalog :: "report list" where
  "example_catalog =
     [\<lparr> r_id = py_str ''r1'', r_name = py_str ''SOC 1'', r_version = 1,
        r_description = py_str ''soc'' \<rparr>,
      \<lparr> r_id = py_str ''r2'', r_name = py_str ''SOC 2'', r_version = 2,
        r_description = py_str ''soc'' \<rparr>,
      \<lparr> r_id = py_str ''r3'', r_name = py_str ''FedRAMP'', r_version = 1,
        r_description = replicate 101 120 \<rparr>]"

theorem list_reports_description_witness:
  "list_reports (map le_description)
     (\<lambda>page_size. [Inr (take 2 example_catalog), Inr (drop 2 example_catalog)])
     (Some 2) (Some 2) = Inr [replicate 100 120 @ py_str ''...'']
   \<and> list_reports (map le_description)
     (\<lambda>page_size. [Inr (take 2 example_catalog), Inr (drop 2 example_catalog)])
     None None = Inr [py_str ''soc'', py_str ''soc'']"
proof -
  let ?pg = "\<lambda>page_size :: int option.
    [Inr (take 2 example_catalog), Inr (drop 2 example_catalog)] :: page_iterator"
  have a: "Some (2::int) = None \<or> (\<exists>ps. Some (2::int) = Some ps \<and> ps \<le> 10)" by simp
  have b: "?pg (Some 2) = map Inr [take 2 example_catalog] @ Inr (drop 2 example_catalog) # []"
    by simp
  have c: "Some (2::int) = Some (int (length [take 2 example_catalog]) + 1)
      \<or> (Some (2::int) = None \<and> [take 2 example_catalog] = [])"
    by simp
  have a': "(None :: int option) = None \<or> (\<exists>ps. (None :: int option) = Some ps \<and> ps \<le> 10)"
    by simp
  have b': "?pg None = map Inr [] @ Inr (take 2 example_catalog) # [Inr (drop 2 example_catalog)]"
    by simp
  have c': "(None :: int option) = Some (int (length ([] :: report list list)) + 1)
      \<or> ((None :: int option) = None \<and> ([] :: report list list) = [])"
    by simp
  show ?thesis
    using list_reports_description [of "Some 2" ?pg, OF a b c, of "map le_description"]
      list_reports_description [of None ?pg, OF a' b' c', of "map le_description"]
    by (simp add: example_catalog_def py_str_def)
qed

subsection \<open>Number of pages\<close>

text \<open>
  C10. \<^verbatim>\<open>get_total_report_pages\<close> checks the upper bound of the page size only: above
  15 it raises ValueError. At 0 the check passes and the pages are requested with page
  size 0 before the division: the AWS client refuses a page size below 1 with
  ParamValidationError, so that the ZeroDivisionError of the division is reached only
  with a paginator that answers page size 0 with pages. From 1 to 15 the function
  returns the quotient of the number of reports by the page size, rounded up: for a
  catalog of fewer than \<open>2^48\<close> reports, rounding the quotient to a float does not
  change its ceiling.
\<close>

theorem get_total_report_pages_cases:
  assumes "float_rounding fl" and "length catalog < 2 ^ 48"
  shows "get_total_report_pages fl (client_paginate default_size catalog) (Some ps) =
           (if 15 < ps then Inl ValueError
            else if ps < 1 then Inl ParamValidationError
            else Inr \<lceil>real (length catalog) / real_of_int ps\<rceil>)
         \<and> (paginator (Some 0) = map Inr pages \<longrightarrow>
              get_total_report_pages fl paginator (Some 0) = Inl ZeroDivisionError)"
proof -
  have zero: "paginator (Some 0) = map Inr pages \<longrightarrow>
      get_total_report_pages fl paginator (Some 0) = Inl ZeroDivisionError"
    by (simp add: get_total_report_pages_def)
  have client: "get_total_report_pages fl (client_paginate default_size catalog) (Some ps) =
      (if 15 < ps then Inl ValueError
       else if ps < 1 then Inl ParamValidationError
       else Inr \<lceil>real (length catalog) / real_of_int ps\<rceil>)"
  proof (cases "1 \<le> ps \<and> ps \<le> 15")
    case False
    then show ?thesis
      by (auto simp: get_total_report_pages_def client_paginate_def)
  next
    case True
    have t: "(0::int) \<le> int (length catalog)" "int (length catalog) < 2 ^ 48"
      using assms(2) by simp_all
    have "\<lceil>fl (real_of_int (int (length catalog)) / real_of_int ps)\<rceil> =
        \<lceil>real_of_int (int (length catalog)) / real_of_int ps\<rceil>"
      using assms(1) t True by (intro ceiling_rounded_quotient) simp_all
    then show ?thesis
      using True
      by (simp add: get_total_report_pages_def client_paginate_def total_paginate)
  qed
  from client zero show ?thesis by (rule conjI)
qed

theorem get_total_report_pages_cases_witness:
  "get_total_report_pages (\<lambda>x. x) (client_paginate 50 example_catalog) (Some 2) = Inr 2
   \<and> get_total_report_pages (\<lambda>x. x) (client_paginate 50 example_catalog) (Some 16)
       = Inl ValueError
   \<and> get_total_report_pages (\<lambda>x. x) (client_paginate 50 example_catalog) (Some 0)
       = Inl ParamValidationError
   \<and> get_total_report_pages (\<lambda>x. x) (\<lambda>page_size. map Inr [example_catalog]) (Some 0)
       = Inl ZeroDivisionError"
proof -
  have fl: "float_rounding (\<lambda>x. x)" by (simp add: float_rounding_def)
  have len: "length example_catalog < 2 ^ 48" by (simp add: example_catalog_def)
  have n: "real (length example_catalog) = 3" by (simp add: example_catalog_def)
  have pg: "(\<lambda>page_size :: int option. map Inr [example_catalog] :: page_iterator) (Some 0)
      = map Inr [example_catalog]"
    by simp
  have z: "get_total_report_pages (\<lambda>x. x) (\<lambda>page_size. map Inr [example_catalog]) (Some 0)
      = Inl ZeroDivisionError"
    using get_total_report_pages_cases [OF fl len,
        of 50 0 "\<lambda>page_size. map Inr [example_catalog]" "[example_catalog]"]
    by simp
  show ?thesis
    using get_total_report_pages_cases [OF fl len, of 50 2 "\<lambda>p. []" "[]"]
      get_total_report_pages_cases [OF fl len, of 50 16 "\<lambda>p. []" "[]"]
      get_total_report_pages_cases [OF fl len, of 50 0 "\<lambda>p. []" "[]"] z
    by (simp add: n)
qed

theorem get_total_report_pages_counterexample:
  "get_total_report_pages (\<lambda>x. x) (client_paginate 50 example_catalog) (Some 0)
     = Inl ParamValidationError
   \<and> get_total_report_pages (\<lambda>x. x) (client_paginate 50 example_catalog) (Some 0)
     \<noteq> Inl ZeroDivisionError"
  by (simp add: get_total_report_pages_def client_paginate_def)

subsection \<open>A page of the catalog\<close>

text \<open>
  C4. For a page size from 1 to 10 and a page number from 1 on, \<^verbatim>\<open>list_reports\<close>
  returns the JSON encoding of the reports at the positions
  \<open>(page_number - 1) * page_size\<close> to \<open>page_number * page_size - 1\<close> of the catalog,
  each reshaped to its id, name, version and truncated description, and the encoding
  of the empty list when the page number exceeds the number of pages; a page size above
  10 raises ValueError.
\<close>

theorem list_reports_page:
  assumes "1 \<le> ps" and "1 \<le> pn"
  shows "list_reports dumps (client_paginate default_size catalog) (Some ps) (Some pn) =
           (if 10 < ps then Inl ValueError
            else Inr (dumps (map (\<lambda>r. \<lparr> le_id = r_id r, le_name = r_name r,
                                        le_version = r_version r,
                                        le_description =
                                          (if 100 < length (r_description r)
                                           then take 100 (r_description r) @ py_str ''...''
                                           else r_description r) \<rparr>)
                   (take (nat ps) (drop (nat ((pn - 1) * ps)) catalog)))))
         \<and> (ps \<le> 10 \<and> int (length (paginate (nat ps) catalog)) < pn \<longrightarrow>
              list_reports dumps (client_paginate default_size catalog) (Some ps) (Some pn) =
                Inr (dumps []))"
proof -
  define n where "n = nat ps"
  define k where "k = nat (pn - 1)"
  let ?pg = "client_paginate default_size catalog"
  have n: "0 < n" and pn: "pn = 1 + int k" and kn: "nat ((pn - 1) * ps) = k * n"
    using assms by (simp_all add: n_def k_def nat_mult_distrib)
  have cl: "?pg (Some ps) = map Inr (paginate n catalog)" if "ps \<le> 10"
    using that assms(1) by (simp add: client_paginate_def n_def)
  have fp: "find_page (map Inr (paginate n catalog)) 1 pn =
      Inr (if k = 0 \<or> k * n < length catalog
           then Some (take n (drop (k * n) catalog)) else None)"
    unfolding pn using find_page_paginate [OF n] .
  have hd: "\<exists>rest. paginate n catalog = take n catalog # rest"
    using n by (subst paginate.simps) auto
  have main: "list_reports dumps ?pg (Some ps) (Some pn) =
      (if 10 < ps then Inl ValueError
       else Inr (dumps (map reshape (take n (drop (k * n) catalog)))))"
  proof (cases "10 < ps")
    case True
    then show ?thesis by (simp add: list_reports_def)
  next
    case le: False
    then have c: "?pg (Some ps) = map Inr (paginate n catalog)" using cl by simp
    show ?thesis
    proof (cases "k = 0")
      case True
      then have "pn = 1" using pn by simp
      with True hd le c show ?thesis by (auto simp: list_reports_def)
    next
      case False
      then have "pn \<noteq> 1" using pn by simp
      with False fp le c show ?thesis by (auto simp: list_reports_def)
    qed
  qed
  have beyond: "take n (drop (k * n) catalog) = []"
    if "int (length (paginate n catalog)) < pn"
  proof -
    from that have "length (paginate n catalog) \<le> k" using pn by simp
    then have "length (paginate n catalog) * n \<le> k * n" by simp
    with length_le_paginate [OF n, of catalog] have "length catalog \<le> k * n"
      by (rule le_trans)
    then show ?thesis by simp
  qed
  have empty: "ps \<le> 10 \<and> int (length (paginate n catalog)) < pn \<longrightarrow>
      list_reports dumps ?pg (Some ps) (Some pn) = Inr (dumps [])"
  proof (intro impI, elim conjE)
    assume le: "ps \<le> 10" and lt: "int (length (paginate n catalog)) < pn"
    from main le have "list_reports dumps ?pg (Some ps) (Some pn) =
        Inr (dumps (map reshape (take n (drop (k * n) catalog))))"
      by simp
    then show "list_reports dumps ?pg (Some ps) (Some pn) = Inr (dumps [])"
      by (simp only: beyond [OF lt] list.map)
  qed
  from main empty show ?thesis
    unfolding n_def [symmetric] kn reshape_explicit by (rule conjI)
qed

theorem list_reports_page_witness:
  "list_reports (map (\<lambda>e. (le_id e, le_name e, le_version e, le_description e)))
     (client_paginate 50 example_catalog) (Some 2) (Some 2)
     = Inr [(py_str ''r3'', py_str ''FedRAMP'', 1, replicate 100 120 @ py_str ''...'')]
   \<and> list_reports (map (\<lambda>e. (le_id e, le_name e, le_version e, le_description e)))
     (client_paginate 50 example_catalog) (Some 2) (Some 3) = Inr []"
proof -
  have a: "(1::int) \<le> 2" and b: "(1::int) \<le> 3" by simp_all
  have len: "int (length (paginate (nat 2) example_catalog)) < 3"
    by (simp add: paginate.simps example_catalog_def)
  show ?thesis
    using list_reports_page [OF a a,
        of "map (\<lambda>e. (le_id e, le_name e, le_version e, le_description e))"
        50 example_catalog]
      list_reports_page [OF a b,
        of "map (\<lambda>e. (le_id e, le_name e, le_version e, le_description e))"
        50 example_catalog] len
    by (simp add: example_catalog_def)
qed

section \<open>WeatherForecastAgent: weather.py\<close>

text \<open>
  A Python float: a finite number, an infinity or NaN. Every comparison with NaN is
  false.
\<close>

datatype py_float = Finite real | PosInf | NegInf | NaN

fun float_le :: "py_float \<Rightarrow> py_float \<Rightarrow> bool" where
  "float_le NaN _ = False"
| "float_le _ NaN = False"
| "float_le NegInf _ = True"
| "float_le _ PosInf = True"
| "float_le PosInf _ = False"
| "float_le _ NegInf = False"
| "float_le (Finite a) (Finite b) = (a \<le> b)"

record WeatherForecast =
  latitude :: py_float
  longitude :: py_float

text \<open>
  \<^verbatim>\<open>WeatherForecast.__init__\<close>: the chained comparison \<^verbatim>\<open>-90 <= latitude <= 90\<close> is the
  conjunction of its two halves.
\<close>

definition WeatherForecast_init :: "py_float \<Rightarrow> py_float \<Rightarrow> py_error + WeatherForecast" where
  "WeatherForecast_init lat lon =
     (if \<not> (float_le (Finite (- 90)) lat \<and> float_le lat (Finite 90))
         \<or> \<not> (float_le (Finite (- 180)) lon \<and> float_le lon (Finite 180))
      then Inl PyException
      else Inr \<lparr> latitude = lat, longitude = lon \<rparr>)"

text \<open>The closed interval from \<open>lo\<close> to \<open>hi\<close>, which holds finite numbers only.\<close>

definition inside :: "real \<Rightarrow> real \<Rightarrow> py_float \<Rightarrow> bool" where
  "inside lo hi x = (case x of Finite r \<Rightarrow> lo \<le> r \<and> r \<le> hi | _ \<Rightarrow> False)"

text \<open>
  A decoded JSON document, and any Python value passed for \<^verbatim>\<open>num_periods\<close>: \<open>JNull\<close>
  is \<^verbatim>\<open>None\<close>, a dictionary is the list of its items.
\<close>

datatype json =
    JNull
  | JBool bool
  | JInt int
  | JFloat py_float
  | JStr string
  | JList "json list"
  | JDict "(string \<times> json) list"

text \<open>
  \<^verbatim>\<open>isinstance(v, int)\<close> and the integer \<open>v\<close> then is: \<^verbatim>\<open>bool\<close> is a subclass of
  \<^verbatim>\<open>int\<close>, \<^verbatim>\<open>True\<close> is 1 and \<^verbatim>\<open>False\<close> is 0.
\<close>

fun as_int :: "json \<Rightarrow> int option" where
  "as_int (JInt n) = Some n"
| "as_int (JBool b) = Some (if b then 1 else 0)"
| "as_int _ = None"

text \<open>\<^verbatim>\<open>d.get(key, default)\<close> on the items of a dictionary.\<close>

definition dict_get :: "(string \<times> json) list \<Rightarrow> string \<Rightarrow> json \<Rightarrow> json" where
  "dict_get d key dflt = (case map_of d key of Some v \<Rightarrow> v | None \<Rightarrow> dflt)"

text \<open>
  \<^verbatim>\<open>_get_periods(json_data, num_periods)\<close>. A \<^verbatim>\<open>properties\<close> entry that is no
  dictionary has no \<^verbatim>\<open>get\<close>: AttributeError. For \<open>n \<ge> 0\<close> the slice
  \<^verbatim>\<open>periods[:n]\<close> is \<open>take n\<close>.
\<close>

definition get_periods :: "json \<Rightarrow> json \<Rightarrow> py_error + json list" where
  "get_periods json_data num_periods =
     (case json_data of
        JDict d \<Rightarrow>
          (case dict_get d ''properties'' (JDict []) of
             JDict properties \<Rightarrow>
               (case dict_get properties ''periods'' (JList []) of
                  JList periods \<Rightarrow>
                    if num_periods \<noteq> JNull then
                      (case as_int num_periods of
                         None \<Rightarrow> Inl PyException
                       | Some n \<Rightarrow>
                           if n < 0 then Inl PyException else Inr (take (nat n) periods))
                    else Inr periods
                | _ \<Rightarrow> Inl PyException)
           | _ \<Rightarrow> Inl AttributeError)
      | _ \<Rightarrow> Inl PyException)"

text \<open>
  \<^verbatim>\<open>get_forecast(num_periods)\<close>; \<open>fetched\<close> is what \<^verbatim>\<open>_fetch_forecast_data\<close> returns
  or raises, the answer of the weather service.
\<close>

definition get_forecast :: "py_error + json \<Rightarrow> json \<Rightarrow> py_error + json list" where
  "get_forecast fetched num_periods =
     (case fetched of
        Inl e \<Rightarrow> Inl e
      | Inr json_data \<Rightarrow> get_periods json_data num_periods)"

subsection \<open>Coordinates\<close>

text \<open>
  C7. Constructing \<^verbatim>\<open>WeatherForecast(latitude, longitude)\<close> raises an exception exactly
  when the latitude is outside \<open>[-90, 90]\<close> or the longitude is outside
  \<open>[-180, 180]\<close>; otherwise it succeeds and stores the two values as given.
\<close>

theorem WeatherForecast_init_range:
  "WeatherForecast_init lat lon =
     (if inside (- 90) 90 lat \<and> inside (- 180) 180 lon
      then Inr \<lparr> latitude = lat, longitude = lon \<rparr>
      else Inl PyException)"
  by (cases lat; cases lon) (auto simp: WeatherForecast_init_def inside_def)

theorem WeatherForecast_init_range_witness:
  "WeatherForecast_init (Finite 47.6) (Finite (- 122.3)) =
     Inr \<lparr> latitude = Finite 47.6, longitude = Finite (- 122.3) \<rparr>
   \<and> WeatherForecast_init (Finite 90.5) (Finite 0) = Inl PyException
   \<and> WeatherForecast_init (Finite 0) (Finite (- 181)) = Inl PyException
   \<and> WeatherForecast_init NaN (Finite 0) = Inl PyException"
  using WeatherForecast_init_range [of "Finite 47.6" "Finite (- 122.3)"]
    WeatherForecast_init_range [of "Finite 90.5" "Finite 0"]
    WeatherForecast_init_range [of "Finite 0" "Finite (- 181)"]
    WeatherForecast_init_range [of NaN "Finite 0"]
  by (simp add: inside_def)

subsection \<open>Forecast periods\<close>

text \<open>
  C6. For a forecast response that holds a list of periods, \<^verbatim>\<open>get_forecast\<close> returns
  the first \<open>min num_periods (length periods)\<close> periods in their order when
  \<^verbatim>\<open>num_periods\<close> is a non-negative integer, the whole list when it is \<^verbatim>\<open>None\<close>, and
  raises an exception when it is negative or no integer.
\<close>

theorem get_forecast_periods:
  assumes "map_of d ''properties'' = Some (JDict props)"
    and "map_of props ''periods'' = Some (JList periods)"
  shows "get_forecast (Inr (JDict d)) (JInt n) =
           (if n < 0 then Inl PyException
            else Inr (take (min (nat n) (length periods)) periods))
         \<and> get_forecast (Inr (JDict d)) JNull = Inr periods
         \<and> (v \<noteq> JNull \<and> as_int v = None \<longrightarrow>
              get_forecast (Inr (JDict d)) v = Inl PyException)"
proof -
  have "take (min (nat n) (length periods)) periods = take (nat n) periods"
    by (simp add: min_def)
  with assms show ?thesis
    by (simp add: get_forecast_def get_periods_def dict_get_def)
qed

definition example_forecast :: "json" where
  "example_forecast =
     JDict [(''type'', JStr ''Feature''),
            (''properties'',
               JDict [(''units'', JStr ''us''),
                      (''periods'',
                         JList [JDict [(''number'', JInt 1), (''name'', JStr ''Today'')],
                                JDict [(''number'', JInt 2), (''name'', JStr ''Tonight'')],
                                JDict [(''number'', JInt 3), (''name'', JStr ''Friday'')]])])]"

theorem get_forecast_periods_witness:
  "get_forecast (Inr example_forecast) (JInt 2) =
     Inr [JDict [(''number'', JInt 1), (''name'', JStr ''Today'')],
          JDict [(''number'', JInt 2), (''name'', JStr ''Tonight'')]]
   \<and> get_forecast (Inr example_forecast) (JInt 5) =
     Inr [JDict [(''number'', JInt 1), (''name'', JStr ''Today'')],
          JDict [(''number'', JInt 2), (''name'', JStr ''Tonight'')],
          JDict [(''number'', JInt 3), (''name'', JStr ''Friday'')]]
   \<and> get_forecast (Inr example_forecast) (JInt (- 1)) = Inl PyException
   \<and> get_forecast (Inr example_forecast) (JStr ''2'') = Inl PyException"
proof -
  let ?ps = "[JDict [(''number'', JInt 1), (''name'', JStr ''Today'')],
              JDict [(''number'', JInt 2), (''name'', JStr ''Tonight'')],
              JDict [(''number'', JInt 3), (''name'', JStr ''Friday'')]]"
  let ?props = "[(''units'', JStr ''us''), (''periods'', JList ?ps)]"
  let ?d = "[(''type'', JStr ''Feature''), (''properties'', JDict ?props)]"
  have a: "map_of ?d ''properties'' = Some (JDict ?props)" by simp
  have b: "map_of ?props ''periods'' = Some (JList ?ps)" by simp
  show ?thesis
    unfolding example_forecast_def
    using get_forecast_periods [OF a b, of 2 "JStr ''2''"]
      get_forecast_periods [OF a b, of 5 "JStr ''2''"]
      get_forecast_periods [OF a b, of "- 1" "JStr ''2''"]
    by simp
qed

section \<open>DateTimeAgent: dates of the standard library\<close>

text \<open>
  A \<^verbatim>\<open>datetime.date\<close>: year, month and day of the proleptic Gregorian calendar, from
  0001-01-01 to 9999-12-31.
\<close>

record date =
  year :: int
  month :: int
  day :: int

definition is_leap :: "int \<Rightarrow> bool" where
  "is_leap y = (y mod 4 = 0 \<and> (y mod 100 \<noteq> 0 \<or> y mod 400 = 0))"

definition days_in_month :: "int \<Rightarrow> int \<Rightarrow> int" where
  "days_in_month y m =
     (if m = 2 \<and> is_leap y then 29
      else [- 1, 31, 28, 31, 30, 31, 30, 31, 31, 30, 31, 30, 31] ! nat m)"

definition days_before_year :: "int \<Rightarrow> int" where
  "days_before_year y = (let y' = y - 1 in y' * 365 + y' div 4 - y' div 100 + y' div 400)"

definition days_before_month :: "int \<Rightarrow> int \<Rightarrow> int" where
  "days_before_month y m =
     [- 1, 0, 31, 59, 90, 120, 151, 181, 212, 243, 273, 304, 334] ! nat m
       + (if m > 2 \<and> is_leap y then 1 else 0)"

definition valid_date :: "date \<Rightarrow> bool" where
  "valid_date d =
     (1 \<le> year d \<and> year d \<le> 9999 \<and> 1 \<le> month d \<and> month d \<le> 12
      \<and> 1 \<le> day d \<and> day d \<le> days_in_month (year d) (month d))"

text \<open>The constructor \<^verbatim>\<open>date(year, month, day)\<close>.\<close>

definition mk_date :: "int \<Rightarrow> int \<Rightarrow> int \<Rightarrow> py_error + date" where
  "mk_date y m d =
     (if valid_date \<lparr> year = y, month = m, day = d \<rparr>
      then Inr \<lparr> year = y, month = m, day = d \<rparr> else Inl ValueError)"

text \<open>\<^verbatim>\<open>toordinal\<close>: 0001-01-01 is day 1. \<^verbatim>\<open>weekday\<close>: Monday is 0, Sunday is 6.\<close>

definition toordinal :: "date \<Rightarrow> int" where
  "toordinal d = days_before_year (year d) + days_before_month (year d) (month d) + day d"

definition weekday :: "date \<Rightarrow> int" where
  "weekday d = (toordinal d + 6) mod 7"

text \<open>Dates compare as the triples of year, month and day.\<close>

definition date_less :: "date \<Rightarrow> date \<Rightarrow> bool" where
  "date_less a b =
     (year a < year b \<or> (year a = year b \<and>
        (month a < month b \<or> (month a = month b \<and> day a < day b))))"

definition date_min :: date where
  "date_min = \<lparr> year = 1, month = 1, day = 1 \<rparr>"

definition date_max :: date where
  "date_max = \<lparr> year = 9999, month = 12, day = 31 \<rparr>"

text \<open>
  \<^verbatim>\<open>d + timedelta(days=1)\<close> and \<^verbatim>\<open>d - timedelta(days=1)\<close>: the next and the previous
  day of the calendar, OverflowError outside the range of dates.
\<close>

definition date_add_day :: "date \<Rightarrow> py_error + date" where
  "date_add_day d =
     (if \<not> date_less d date_max then Inl OverflowError
      else if day d < days_in_month (year d) (month d) then Inr (d\<lparr> day := day d + 1 \<rparr>)
      else if month d < 12 then Inr \<lparr> year = year d, month = month d + 1, day = 1 \<rparr>
      else Inr \<lparr> year = year d + 1, month = 1, day = 1 \<rparr>)"

definition date_sub_day :: "date \<Rightarrow> py_error + date" where
  "date_sub_day d =
     (if \<not> date_less date_min d then Inl OverflowError
      else if 1 < day d then Inr (d\<lparr> day := day d - 1 \<rparr>)
      else if 1 < month d then
        Inr \<lparr> year = year d, month = month d - 1,
              day = days_in_month (year d) (month d - 1) \<rparr>
      else Inr \<lparr> year = year d - 1, month = 12, day = 31 \<rparr>)"

text \<open>
  A naive \<^verbatim>\<open>datetime.datetime\<close>: a date and the microseconds since midnight.
\<close>

record datetime =
  dt_date :: date
  dt_time :: nat

definition midnight :: "date \<Rightarrow> datetime" where
  "midnight d = \<lparr> dt_date = d, dt_time = 0 \<rparr>"

definition datetime_less :: "datetime \<Rightarrow> datetime \<Rightarrow> bool" where
  "datetime_less a b =
     (date_less (dt_date a) (dt_date b) \<or> (dt_date a = dt_date b \<and> dt_time a < dt_time b))"

definition datetime_add_day :: "datetime \<Rightarrow> py_error + datetime" where
  "datetime_add_day a =
     (case date_add_day (dt_date a) of
        Inl e \<Rightarrow> Inl e
      | Inr d \<Rightarrow> Inr (a\<lparr> dt_date := d \<rparr>))"

section \<open>DateTimeAgent: date\_time\_utils.py\<close>

definition is_business_day :: "date \<Rightarrow> bool" where
  "is_business_day date_obj = (let wd = weekday date_obj in wd \<ge> 0 \<and> wd \<le> 4)"

text \<open>
  The order in which repeated \<^verbatim>\<open>+ timedelta(days=1)\<close> runs through the dates: it
  bounds every loop that steps by days.
\<close>

definition days_left :: "date \<Rightarrow> nat \<times> nat \<times> nat" where
  "days_left d =
     (nat (10000 - year d), nat (12 - month d),
      nat (days_in_month (year d) (month d) - day d))"

lemma date_add_day_decreases:
  "date_add_day d = Inr d' \<Longrightarrow>
   (days_left d', days_left d) \<in> less_than <*lex*> less_than <*lex*> less_than"
  by (auto simp: date_add_day_def days_left_def date_less_def date_max_def
      split: if_splits)

lemma datetime_add_day_decreases:
  "datetime_add_day c = Inr c' \<Longrightarrow>
   (days_left (dt_date c'), days_left (dt_date c))
     \<in> less_than <*lex*> less_than <*lex*> less_than"
  using date_add_day_decreases [of "dt_date c"]
  by (auto simp: datetime_add_day_def split: sum.splits)

function cbd_loop :: "datetime \<Rightarrow> datetime \<Rightarrow> int \<Rightarrow> py_error + int" where
  "cbd_loop current_date end_date business_days =
     (if datetime_less current_date end_date then
        (case datetime_add_day current_date of
           Inl e \<Rightarrow> Inl e
         | Inr next_date \<Rightarrow>
             cbd_loop next_date end_date
               (if is_business_day (dt_date current_date) then business_days + 1
                else business_days))
      else Inr business_days)"
  by pat_completeness auto
termination
  by (relation "inv_image (less_than <*lex*> less_than <*lex*> less_than)
        (\<lambda>(c, e, b). days_left (dt_date c))")
    (auto simp: datetime_add_day_decreases)

declare cbd_loop.simps [simp del]

definition calculate_business_days :: "datetime \<Rightarrow> datetime \<Rightarrow> py_error + int" where
  "calculate_business_days start_date end_date = cbd_loop start_date end_date 0"

definition get_fiscal_year :: "date \<Rightarrow> int \<Rightarrow> int" where
  "get_fiscal_year date_obj fiscal_year_start_month =
     (let y = year date_obj in
      if month date_obj < fiscal_year_start_month then y - 1 else y)"

definition get_fiscal_year_range :: "date \<Rightarrow> int \<Rightarrow> py_error + date \<times> date" where
  "get_fiscal_year_range date_obj fiscal_year_start_month =
     (let fiscal_year = get_fiscal_year date_obj fiscal_year_start_month in
      case mk_date fiscal_year fiscal_year_start_month 1 of
        Inl e \<Rightarrow> Inl e
      | Inr start_date \<Rightarrow>
          (case mk_date (fiscal_year + 1) fiscal_year_start_month 1 of
             Inl e \<Rightarrow> Inl e
           | Inr first \<Rightarrow>
               (case date_sub_day first of
                  Inl e \<Rightarrow> Inl e
                | Inr end_date \<Rightarrow> Inr (start_date, end_date))))"

text \<open>
  The loop of \<^verbatim>\<open>get_next_business_day\<close>. Its condition is
  \<^verbatim>\<open>next_day.weekday() > 4 or self.is_holiday(next_day)\<close>: when the left operand is
  false the right one is evaluated, and \<^verbatim>\<open>is_holiday\<close> is no attribute of the class
  (its definition is commented out), so the lookup raises AttributeError.
\<close>

function gnbd_loop :: "date \<Rightarrow> py_error + date" where
  "gnbd_loop next_day =
     (if weekday next_day > 4 then
        (case date_add_day next_day of
           Inl e \<Rightarrow> Inl e
         | Inr d \<Rightarrow> gnbd_loop d)
      else Inl AttributeError)"
  by pat_completeness auto
termination
  by (relation "inv_image (less_than <*lex*> less_than <*lex*> less_than) days_left")
    (auto simp: date_add_day_decreases)

declare gnbd_loop.simps [simp del]

definition get_next_business_day :: "date \<Rightarrow> py_error + date" where
  "get_next_business_day date_obj =
     (case date_add_day date_obj of
        Inl e \<Rightarrow> Inl e
      | Inr next_day \<Rightarrow> gnbd_loop next_day)"

subsection \<open>The calendar\<close>

lemma month_cases:
  "1 \<le> (m::int) \<Longrightarrow> m \<le> 12 \<Longrightarrow>
   m = 1 \<or> m = 2 \<or> m = 3 \<or> m = 4 \<or> m = 5 \<or> m = 6 \<or> m = 7 \<or> m = 8 \<or> m = 9
   \<or> m = 10 \<or> m = 11 \<or> m = 12"
  by arith

lemma days_before_month_succ:
  assumes "1 \<le> m" and "m < 12"
  shows "days_before_month y (m + 1) = days_before_month y m + days_in_month y m"
proof -
  from assms have "m = 1 \<or> m = 2 \<or> m = 3 \<or> m = 4 \<or> m = 5 \<or> m = 6 \<or> m = 7 \<or> m = 8
      \<or> m = 9 \<or> m = 10 \<or> m = 11"
    by arith
  then show ?thesis
    by (elim disjE) (simp_all add: days_before_month_def days_in_month_def)
qed

lemma days_in_month_bounds:
  assumes "1 \<le> m" and "m \<le> 12"
  shows "28 \<le> days_in_month y m \<and> days_in_month y m \<le> 31"
  using month_cases [OF assms]
  by (elim disjE) (simp_all add: days_in_month_def)

lemma days_before_month_1: "days_before_month y 1 = 0"
  by (simp add: days_before_month_def)

lemma days_before_month_12: "days_before_month y 12 + days_in_month y 12 =
    (if is_leap y then 366 else 365)"
  by (simp add: days_before_month_def days_in_month_def)

lemma int_div_pred:
  assumes "0 < (n::int)"
  shows "y div n = (y - 1) div n + (if y mod n = 0 then 1 else 0)"
proof -
  define q where "q = (y - 1) div n"
  define r where "r = (y - 1) mod n"
  have r: "0 \<le> r" "r < n" using assms by (simp_all add: r_def)
  have y: "y = n * q + (r + 1)"
    using mult_div_mod_eq [of n "y - 1"] by (simp add: q_def r_def)
  show ?thesis
  proof (cases "r + 1 < n")
    case True
    have "y div n = q" using y r True by (intro int_div_pos_eq) auto
    moreover have "y mod n = r + 1" using y r True by (intro int_mod_pos_eq) auto
    ultimately show ?thesis using r by (simp add: q_def)
  next
    case False
    then have y': "y = n * (q + 1) + 0" using y r by (simp add: algebra_simps)
    have "y div n = q + 1" using y' assms by (intro int_div_pos_eq) auto
    moreover have "y mod n = 0" using y' assms by (intro int_mod_pos_eq) auto
    ultimately show ?thesis by (simp add: q_def)
  qed
qed

lemma days_before_year_succ:
  "days_before_year (y + 1) = days_before_year y + (if is_leap y then 366 else 365)"
proof -
  define q4 q100 q400 where "q4 = (y - 1) div 4" and "q100 = (y - 1) div 100"
    and "q400 = (y - 1) div 400"
  define p4 p100 p400 where "p4 \<longleftrightarrow> y mod 4 = 0" and "p100 \<longleftrightarrow> y mod 100 = 0"
    and "p400 \<longleftrightarrow> y mod 400 = 0"
  have d4: "y div 4 = q4 + (if p4 then 1 else 0)"
    unfolding q4_def p4_def by (rule int_div_pred) simp
  have d100: "y div 100 = q100 + (if p100 then 1 else 0)"
    unfolding q100_def p100_def by (rule int_div_pred) simp
  have d400: "y div 400 = q400 + (if p400 then 1 else 0)"
    unfolding q400_def p400_def by (rule int_div_pred) simp
  have i1: "p4" if "p100"
    using mod_mod_cancel [of 4 100 y] that by (simp add: p4_def p100_def)
  have i2: "p100" if "p400"
    using mod_mod_cancel [of 100 400 y] that by (simp add: p400_def p100_def)
  have lhs: "days_before_year (y + 1) = y * 365 + y div 4 - y div 100 + y div 400"
    by (simp add: days_before_year_def)
  have rhs: "days_before_year y = (y - 1) * 365 + q4 - q100 + q400"
    by (simp add: days_before_year_def Let_def q4_def q100_def q400_def)
  have leap: "is_leap y = (p4 \<and> (\<not> p100 \<or> p400))"
    by (simp add: is_leap_def p4_def p100_def p400_def)
  show ?thesis
    unfolding lhs rhs leap d4 d100 d400 using i1 i2
    by (cases p4; cases p100; cases p400) (simp_all add: algebra_simps)
qed

lemma days_before_year_mono_nat:
  "days_before_year y + 365 * int k \<le> days_before_year (y + int k)"
proof (induction k)
  case 0
  then show ?case by simp
next
  case (Suc k)
  have "days_before_year (y + int (Suc k)) = days_before_year ((y + int k) + 1)"
    by (simp add: algebra_simps)
  also have "\<dots> \<ge> days_before_year (y + int k) + 365"
    by (simp add: days_before_year_succ)
  finally show ?case using Suc.IH by simp
qed

lemma days_before_year_mono:
  assumes "a \<le> b"
  shows "days_before_year a \<le> days_before_year b"
proof -
  define k where "k = nat (b - a)"
  have b: "b = a + int k" using assms by (simp add: k_def)
  have "days_before_year a \<le> days_before_year a + 365 * int k" by simp
  also have "\<dots> \<le> days_before_year (a + int k)" by (rule days_before_year_mono_nat)
  finally show ?thesis by (simp only: b)
qed

lemma days_before_month_mono:
  assumes "1 \<le> m"
  shows "m + int k \<le> 12 \<Longrightarrow> days_before_month y m \<le> days_before_month y (m + int k)"
proof (induction k)
  case 0
  then show ?case by simp
next
  case (Suc k)
  then have lt: "m + int k < 12" by simp
  have "days_before_month y (m + int (Suc k)) = days_before_month y (m + int k + 1)"
    by (simp add: algebra_simps)
  also have "\<dots> = days_before_month y (m + int k) + days_in_month y (m + int k)"
    using days_before_month_succ [of "m + int k" y] assms lt by simp
  also have "\<dots> \<ge> days_before_month y (m + int k)"
    using days_in_month_bounds [of "m + int k" y] assms lt by simp
  finally show ?case using Suc.IH lt by simp
qed

lemma days_before_month_mono_step:
  assumes "1 \<le> m" and "m < m'" and "m' \<le> 12"
  shows "days_before_month y m + days_in_month y m \<le> days_before_month y m'"
proof -
  define k where "k = nat (m' - (m + 1))"
  have m': "m' = (m + 1) + int k" using assms(2) by (simp add: k_def)
  have "days_before_month y m + days_in_month y m = days_before_month y (m + 1)"
    using days_before_month_succ [of m y] assms by simp
  also have "\<dots> \<le> days_before_month y ((m + 1) + int k)"
    using days_before_month_mono [of "m + 1" k y] assms(1,3) m' by simp
  finally show ?thesis by (simp only: m')
qed

lemma date_less_max_iff:
  assumes "valid_date d"
  shows "date_less d date_max \<longleftrightarrow> d \<noteq> date_max"
proof -
  have "day d \<le> 31"
    using assms days_in_month_bounds [of "month d" "year d"] by (simp add: valid_date_def)
  then show ?thesis
    using assms by (cases d) (auto simp: valid_date_def date_less_def date_max_def)
qed

lemma date_less_min_iff:
  assumes "valid_date d"
  shows "date_less date_min d \<longleftrightarrow> d \<noteq> date_min"
  using assms by (cases d) (auto simp: valid_date_def date_less_def date_min_def)

lemma date_add_day_valid:
  assumes "valid_date d" and "date_add_day d = Inr d'"
  shows "valid_date d' \<and> toordinal d' = toordinal d + 1"
proof -
  have lt: "date_less d date_max"
    using assms(2) by (auto simp: date_add_day_def split: if_splits)
  have m: "1 \<le> month d" "month d \<le> 12" and y: "1 \<le> year d" "year d \<le> 9999"
    and dd: "1 \<le> day d" "day d \<le> days_in_month (year d) (month d)"
    using assms(1) by (simp_all add: valid_date_def)
  consider (day) "day d < days_in_month (year d) (month d)"
    | (month) "day d = days_in_month (year d) (month d)" "month d < 12"
    | (year) "day d = days_in_month (year d) (month d)" "month d = 12"
    using dd m by linarith
  then show ?thesis
  proof cases
    case day
    then have "d' = d\<lparr> day := day d + 1 \<rparr>"
      using assms(2) lt by (simp add: date_add_day_def)
    then show ?thesis
      using day m y dd by (simp add: valid_date_def toordinal_def)
  next
    case month
    then have d': "d' = \<lparr> year = year d, month = month d + 1, day = 1 \<rparr>"
      using assms(2) lt by (simp add: date_add_day_def)
    have "28 \<le> days_in_month (year d) (month d + 1)"
      using days_in_month_bounds [of "month d + 1" "year d"] m month by simp
    then show ?thesis
      using d' m y month days_before_month_succ [OF m(1) month(2), of "year d"]
      by (simp add: valid_date_def toordinal_def)
  next
    case year
    then have d': "d' = \<lparr> year = year d + 1, month = 1, day = 1 \<rparr>"
      using assms(2) lt by (simp add: date_add_day_def)
    have "day d = 31" using year by (simp add: days_in_month_def)
    then have "year d < 9999"
      using lt year y by (auto simp: date_less_def date_max_def)
    moreover have "days_in_month (year d + 1) 1 = 31" by (simp add: days_in_month_def)
    ultimately show ?thesis
      using d' y year days_before_month_12 [of "year d"] days_before_year_succ [of "year d"]
      by (simp add: valid_date_def toordinal_def days_before_month_1 split: if_splits)
  qed
qed

lemma date_sub_day_valid:
  assumes "valid_date d" and "date_sub_day d = Inr d'"
  shows "valid_date d' \<and> toordinal d' = toordinal d - 1"
proof -
  have lt: "date_less date_min d"
    using assms(2) by (auto simp: date_sub_day_def split: if_splits)
  have m: "1 \<le> month d" "month d \<le> 12" and y: "1 \<le> year d" "year d \<le> 9999"
    and dd: "1 \<le> day d" "day d \<le> days_in_month (year d) (month d)"
    using assms(1) by (simp_all add: valid_date_def)
  consider (day) "1 < day d"
    | (month) "day d = 1" "1 < month d"
    | (year) "day d = 1" "month d = 1"
    using dd m by linarith
  then show ?thesis
  proof cases
    case day
    then have "d' = d\<lparr> day := day d - 1 \<rparr>"
      using assms(2) lt by (simp add: date_sub_day_def)
    then show ?thesis
      using day m y dd by (simp add: valid_date_def toordinal_def)
  next
    case month
    then have d': "d' = \<lparr> year = year d, month = month d - 1,
        day = days_in_month (year d) (month d - 1) \<rparr>"
      using assms(2) lt by (simp add: date_sub_day_def)
    have "28 \<le> days_in_month (year d) (month d - 1)"
      using days_in_month_bounds [of "month d - 1" "year d"] m month by simp
    moreover have "days_before_month (year d) (month d - 1 + 1) =
        days_before_month (year d) (month d - 1) + days_in_month (year d) (month d - 1)"
      using m month by (intro days_before_month_succ) simp_all
    ultimately show ?thesis
      using d' m y month by (simp add: valid_date_def toordinal_def)
  next
    case year
    then have d': "d' = \<lparr> year = year d - 1, month = 12, day = 31 \<rparr>"
      using assms(2) lt by (simp add: date_sub_day_def)
    have "1 < year d"
      using lt year y by (auto simp: date_less_def date_min_def)
    moreover have "days_in_month (year d - 1) 12 = 31" by (simp add: days_in_month_def)
    ultimately show ?thesis
      using d' y year days_before_month_12 [of "year d - 1"]
        days_before_year_succ [of "year d - 1"]
      by (simp add: valid_date_def toordinal_def days_before_month_1 split: if_splits)
  qed
qed

lemma date_less_toordinal:
  assumes "valid_date a" and "valid_date b" and "date_less a b"
  shows "toordinal a < toordinal b"
proof -
  have ma: "1 \<le> month a" "month a \<le> 12" and da: "1 \<le> day a"
      "day a \<le> days_in_month (year a) (month a)"
    and mb: "1 \<le> month b" "month b \<le> 12" and db: "1 \<le> day b"
    using assms(1,2) by (simp_all add: valid_date_def)
  consider (y) "year a < year b"
    | (m) "year a = year b" "month a < month b"
    | (d) "year a = year b" "month a = month b" "day a < day b"
    using assms(3) by (auto simp: date_less_def)
  then show ?thesis
  proof cases
    case y
    have in_year: "days_before_month (year a) (month a) + day a
        \<le> (if is_leap (year a) then 366 else 365)"
    proof (cases "month a = 12")
      case True
      then show ?thesis using days_before_month_12 [of "year a"] da by simp
    next
      case False
      then have "month a < 12" using ma by simp
      from days_before_month_mono_step [OF ma(1) this, of "year a"]
      have "days_before_month (year a) (month a) + days_in_month (year a) (month a)
          \<le> days_before_month (year a) 12"
        by simp
      moreover have "0 \<le> days_in_month (year a) 12" by (simp add: days_in_month_def)
      ultimately show ?thesis using days_before_month_12 [of "year a"] da by linarith
    qed
    have "toordinal a \<le> days_before_year (year a + 1)"
      using in_year by (simp add: toordinal_def days_before_year_succ)
    also have "\<dots> \<le> days_before_year (year b)"
      using y by (intro days_before_year_mono) simp
    also have "\<dots> < toordinal b"
    proof -
      have "0 \<le> days_before_month (year b) (month b)"
        using month_cases [OF mb] by (elim disjE) (simp_all add: days_before_month_def)
      then show ?thesis using db by (simp add: toordinal_def)
    qed
    finally show ?thesis .
  next
    case m
    from days_before_month_mono_step [OF ma(1) m(2) mb(2), of "year a"]
    show ?thesis using m da db by (simp add: toordinal_def)
  next
    case d
    then show ?thesis by (simp add: toordinal_def)
  qed
qed

lemma date_trichotomy: "date_less a b \<or> a = b \<or> date_less b a"
  by (cases a; cases b) (auto simp: date_less_def)

lemma date_less_irrefl: "\<not> date_less a a"
  by (simp add: date_less_def)

lemma date_less_iff_toordinal:
  assumes "valid_date a" and "valid_date b"
  shows "date_less a b \<longleftrightarrow> toordinal a < toordinal b"
proof
  assume "date_less a b"
  then show "toordinal a < toordinal b" by (rule date_less_toordinal [OF assms])
next
  assume lt: "toordinal a < toordinal b"
  show "date_less a b"
  proof (rule ccontr)
    assume "\<not> date_less a b"
    then consider "a = b" | "date_less b a" using date_trichotomy by blast
    then show False
    proof cases
      case 1
      then show ?thesis using lt by simp
    next
      case 2
      then show ?thesis using date_less_toordinal [OF assms(2,1)] lt by simp
    qed
  qed
qed

lemma toordinal_inj:
  assumes "valid_date a" and "valid_date b" and "toordinal a = toordinal b"
  shows "a = b"
  using date_trichotomy [of a b] date_less_toordinal [OF assms(1,2)]
    date_less_toordinal [OF assms(2,1)] assms(3) by auto

subsection \<open>Business days\<close>

lemma toordinal_le_max:
  assumes "valid_date d"
  shows "toordinal d \<le> toordinal date_max"
proof (cases "d = date_max")
  case True
  then show ?thesis by simp
next
  case False
  have "valid_date date_max"
    by (simp add: valid_date_def date_max_def days_in_month_def)
  with assms False show ?thesis
    using date_less_toordinal [of d date_max] date_less_max_iff [of d] by simp
qed

lemma date_add_day_defined:
  assumes "valid_date c" and "valid_date e" and "date_less c e"
  shows "\<exists>c'. date_add_day c = Inr c'"
proof -
  have "toordinal c < toordinal e" using assms by (rule date_less_toordinal)
  with toordinal_le_max [OF assms(2)] have "c \<noteq> date_max" by auto
  then have "date_less c date_max" using date_less_max_iff [OF assms(1)] by simp
  then show ?thesis by (simp add: date_add_day_def)
qed

lemma datetime_less_midnight [simp]:
  "datetime_less (midnight a) (midnight b) = date_less a b"
  by (simp add: datetime_less_def midnight_def)

lemma dt_date_midnight [simp]: "dt_date (midnight d) = d"
  by (simp add: midnight_def)

lemma datetime_add_day_midnight:
  "date_add_day c = Inr c' \<Longrightarrow> datetime_add_day (midnight c) = Inr (midnight c')"
  by (simp add: datetime_add_day_def midnight_def)

definition business_days_between :: "date \<Rightarrow> date \<Rightarrow> date set" where
  "business_days_between s e =
     {d. valid_date d \<and> \<not> date_less d s \<and> date_less d e \<and> is_business_day d}"

lemma finite_business_days_between:
  assumes "valid_date s" and "valid_date e"
  shows "finite (business_days_between s e)"
proof -
  have inj: "inj_on toordinal (business_days_between s e)"
    by (rule inj_onI) (auto simp: business_days_between_def intro: toordinal_inj)
  have "toordinal ` business_days_between s e \<subseteq> {toordinal s ..< toordinal e}"
    using assms by (auto simp: business_days_between_def date_less_iff_toordinal)
  then have "finite (toordinal ` business_days_between s e)"
    by (rule finite_subset) simp
  then show ?thesis using inj by (rule finite_imageD)
qed

lemma business_days_between_empty:
  assumes "valid_date s" and "valid_date e" and "\<not> date_less s e"
  shows "business_days_between s e = {}"
  using assms by (auto simp: business_days_between_def date_less_iff_toordinal)

lemma business_days_between_step:
  assumes "valid_date s" and "valid_date e" and "date_less s e"
    and "date_add_day s = Inr s'"
  shows "business_days_between s e =
      (if is_business_day s then insert s (business_days_between s' e)
       else business_days_between s' e)"
    and "s \<notin> business_days_between s' e"
proof -
  have s': "valid_date s'" "toordinal s' = toordinal s + 1"
    using date_add_day_valid [OF assms(1,4)] by simp_all
  have *: "\<not> date_less d s \<longleftrightarrow> d = s \<or> \<not> date_less d s'" if "valid_date d" for d
  proof -
    have "\<not> date_less d s \<longleftrightarrow> toordinal s \<le> toordinal d"
      using date_less_iff_toordinal [OF that assms(1)] by auto
    moreover have "\<not> date_less d s' \<longleftrightarrow> toordinal s + 1 \<le> toordinal d"
      using date_less_iff_toordinal [OF that s'(1)] s'(2) by auto
    moreover have "d = s \<longleftrightarrow> toordinal d = toordinal s"
      using toordinal_inj [OF that assms(1)] by auto
    ultimately show ?thesis by auto
  qed
  show "s \<notin> business_days_between s' e"
    using date_less_iff_toordinal [OF assms(1) s'(1)] s'(2)
    by (simp add: business_days_between_def)
  show "business_days_between s e =
      (if is_business_day s then insert s (business_days_between s' e)
       else business_days_between s' e)"
    using * assms(1,3) by (auto simp: business_days_between_def)
qed

lemma cbd_loop_midnight:
  assumes "valid_date c" and "valid_date e"
  shows "cbd_loop (midnight c) (midnight e) n =
      Inr (n + int (card (business_days_between c e)))"
  using assms
proof (induction "nat (toordinal e - toordinal c)" arbitrary: c n)
  case 0
  then have "\<not> date_less c e"
    using date_less_toordinal [of c e] by auto
  then show ?case
    using business_days_between_empty [OF "0.prems"]
    by (subst cbd_loop.simps) simp
next
  case (Suc k)
  then have lt: "date_less c e"
    using date_less_iff_toordinal [of c e] by auto
  then obtain c' where c': "date_add_day c = Inr c'"
    using date_add_day_defined [OF Suc.prems] by blast
  have v: "valid_date c'" and ord: "toordinal c' = toordinal c + 1"
    using date_add_day_valid [OF Suc.prems(1) c'] by simp_all
  have k: "k = nat (toordinal e - toordinal c')"
    using Suc.hyps(2) ord by simp
  have fin: "finite (business_days_between c' e)"
    using v Suc.prems(2) by (rule finite_business_days_between)
  have step: "cbd_loop (midnight c) (midnight e) n =
      cbd_loop (midnight c') (midnight e) (if is_business_day c then n + 1 else n)"
    using lt datetime_add_day_midnight [OF c']
    by (subst cbd_loop.simps) simp
  show ?case
    unfolding step Suc.hyps(1) [OF k v Suc.prems(2)]
    using business_days_between_step [OF Suc.prems lt c'] fin
    by simp
qed

text \<open>
  C2. For dates \<open>s\<close> and \<open>e\<close>, \<^verbatim>\<open>calculate_business_days\<close> returns the number of days
  \<open>d\<close> with \<open>s \<le> d < e\<close> whose weekday is Monday to Friday: the end date is never
  counted, and the result is 0 when \<open>s \<ge> e\<close>.
\<close>

theorem calculate_business_days_count:
  assumes "valid_date s" and "valid_date e"
  shows "calculate_business_days (midnight s) (midnight e) =
           Inr (int (card {d. valid_date d \<and> \<not> date_less d s \<and> date_less d e
                              \<and> 0 \<le> weekday d \<and> weekday d \<le> 4}))
         \<and> e \<notin> {d. valid_date d \<and> \<not> date_less d s \<and> date_less d e
                    \<and> 0 \<le> weekday d \<and> weekday d \<le> 4}
         \<and> (\<not> date_less s e \<longrightarrow>
              calculate_business_days (midnight s) (midnight e) = Inr 0)"
proof -
  have set: "{d. valid_date d \<and> \<not> date_less d s \<and> date_less d e
      \<and> 0 \<le> weekday d \<and> weekday d \<le> 4} = business_days_between s e"
    by (simp add: business_days_between_def is_business_day_def Let_def)
  have "calculate_business_days (midnight s) (midnight e) =
      Inr (int (card (business_days_between s e)))"
    using cbd_loop_midnight [OF assms, of 0] by (simp add: calculate_business_days_def)
  moreover have "e \<notin> business_days_between s e"
    by (simp add: business_days_between_def date_less_irrefl)
  moreover have "card (business_days_between s e) = 0" if "\<not> date_less s e"
    using business_days_between_empty [OF assms that] by simp
  ultimately show ?thesis unfolding set by simp
qed

lemma calculate_business_days_example:
  "calculate_business_days (midnight \<lparr> year = 2026, month = 5, day = 1 \<rparr>)
     (midnight \<lparr> year = 2026, month = 5, day = 15 \<rparr>) = Inr 10"
  by (simp add: calculate_business_days_def cbd_loop.simps datetime_less_def midnight_def
      date_less_def datetime_add_day_def date_add_day_def date_max_def days_in_month_def
      is_leap_def is_business_day_def weekday_def toordinal_def days_before_year_def
      days_before_month_def)

theorem calculate_business_days_count_witness:
  "valid_date \<lparr> year = 2026, month = 5, day = 1 \<rparr>
   \<and> valid_date \<lparr> year = 2026, month = 5, day = 15 \<rparr>
   \<and> calculate_business_days (midnight \<lparr> year = 2026, month = 5, day = 1 \<rparr>)
        (midnight \<lparr> year = 2026, month = 5, day = 15 \<rparr>) = Inr 10
   \<and> card {d. valid_date d \<and> \<not> date_less d \<lparr> year = 2026, month = 5, day = 1 \<rparr>
              \<and> date_less d \<lparr> year = 2026, month = 5, day = 15 \<rparr>
              \<and> 0 \<le> weekday d \<and> weekday d \<le> 4} = 10
   \<and> calculate_business_days (midnight \<lparr> year = 2026, month = 5, day = 15 \<rparr>)
        (midnight \<lparr> year = 2026, month = 5, day = 1 \<rparr>) = Inr 0"
proof -
  let ?s = "\<lparr> year = 2026, month = 5, day = 1 \<rparr>"
  let ?e = "\<lparr> year = 2026, month = 5, day = 15 \<rparr>"
  have s: "valid_date ?s" and e: "valid_date ?e"
    by (simp_all add: valid_date_def days_in_month_def)
  have ge: "\<not> date_less ?e ?s" by (simp add: date_less_def)
  let ?S = "{d. valid_date d \<and> \<not> date_less d ?s \<and> date_less d ?e
      \<and> 0 \<le> weekday d \<and> weekday d \<le> 4}"
  have "calculate_business_days (midnight ?s) (midnight ?e) = Inr (int (card ?S))"
    using calculate_business_days_count [OF s e] by (rule conjunct1)
  then have c: "card ?S = 10"
    using calculate_business_days_example by simp
  have z: "calculate_business_days (midnight ?e) (midnight ?s) = Inr 0"
    using calculate_business_days_count [OF e s] ge by blast
  from s e calculate_business_days_example c z show ?thesis by (intro conjI)
qed

subsection \<open>The next business day\<close>

lemma date_add_day_ex: "date_less d date_max \<Longrightarrow> \<exists>d'. date_add_day d = Inr d'"
  by (simp add: date_add_day_def)

lemma date_sub_day_ex: "date_less date_min d \<Longrightarrow> \<exists>d'. date_sub_day d = Inr d'"
  by (simp add: date_sub_day_def)

lemma valid_date_max: "valid_date date_max"
  by (simp add: valid_date_def date_max_def days_in_month_def)

lemma weekday_date_max: "weekday date_max = 4"
  by (simp add: weekday_def toordinal_def date_max_def days_before_year_def
      days_before_month_def is_leap_def)

lemma weekday_range: "0 \<le> weekday d \<and> weekday d \<le> 6"
  by (simp add: weekday_def)

lemma weekday_next:
  assumes "valid_date d" and "weekday d > 4"
  shows "\<exists>d'. date_add_day d = Inr d' \<and> valid_date d'
      \<and> weekday d' = (weekday d + 1) mod 7"
proof -
  have "d \<noteq> date_max" using assms(2) weekday_date_max by auto
  then have "date_less d date_max" using date_less_max_iff [OF assms(1)] by simp
  then obtain d' where d': "date_add_day d = Inr d'"
    using date_add_day_ex by blast
  have "valid_date d'" and "toordinal d' = toordinal d + 1"
    using date_add_day_valid [OF assms(1) d'] by simp_all
  moreover from this have "weekday d' = (weekday d + 1) mod 7"
    by (simp add: weekday_def mod_simps algebra_simps)
  ultimately show ?thesis using d' by simp
qed

lemma gnbd_loop_weekday:
  "weekday d \<le> 4 \<Longrightarrow> gnbd_loop d = Inl AttributeError"
  by (subst gnbd_loop.simps) simp

lemma gnbd_loop_sunday:
  assumes "valid_date d" and "weekday d = 6"
  shows "gnbd_loop d = Inl AttributeError"
proof -
  obtain d' where d': "date_add_day d = Inr d'" "valid_date d'"
      "weekday d' = (weekday d + 1) mod 7"
    using weekday_next [OF assms(1)] assms(2) by auto
  then have "weekday d' \<le> 4" using assms(2) by simp
  then have "gnbd_loop d' = Inl AttributeError" by (rule gnbd_loop_weekday)
  then show ?thesis using d'(1) assms(2) by (subst gnbd_loop.simps) simp
qed

lemma gnbd_loop_saturday:
  assumes "valid_date d" and "weekday d = 5"
  shows "gnbd_loop d = Inl AttributeError"
proof -
  obtain d' where d': "date_add_day d = Inr d'" "valid_date d'"
      "weekday d' = (weekday d + 1) mod 7"
    using weekday_next [OF assms(1)] assms(2) by auto
  then have "weekday d' = 6" using assms(2) by simp
  with d'(2) have "gnbd_loop d' = Inl AttributeError" by (rule gnbd_loop_sunday)
  then show ?thesis using d'(1) assms(2) by (subst gnbd_loop.simps) simp
qed

lemma gnbd_loop_raises:
  assumes "valid_date d"
  shows "gnbd_loop d = Inl AttributeError"
proof -
  consider "weekday d \<le> 4" | "weekday d = 5" | "weekday d = 6"
    using weekday_range [of d] by linarith
  then show ?thesis
    using assms by cases (simp_all add: gnbd_loop_weekday gnbd_loop_saturday gnbd_loop_sunday)
qed

text \<open>
  C8. For every date before 9999-12-31, \<^verbatim>\<open>get_next_business_day\<close> raises
  AttributeError, and for 9999-12-31 the first addition of a day raises OverflowError:
  the function never returns a date.
\<close>

theorem get_next_business_day_raises:
  assumes "valid_date d"
  shows "get_next_business_day d =
           (if d = date_max then Inl OverflowError else Inl AttributeError)"
proof (cases "d = date_max")
  case True
  then show ?thesis
    by (simp add: get_next_business_day_def date_add_day_def date_less_irrefl)
next
  case False
  then have "date_less d date_max" using date_less_max_iff [OF assms] by simp
  then obtain d' where d': "date_add_day d = Inr d'"
    using date_add_day_ex by blast
  then have "valid_date d'" using date_add_day_valid [OF assms] by simp
  then have "gnbd_loop d' = Inl AttributeError" by (rule gnbd_loop_raises)
  with d' False show ?thesis by (simp add: get_next_business_day_def)
qed

theorem get_next_business_day_raises_witness:
  "valid_date \<lparr> year = 2026, month = 5, day = 1 \<rparr>
   \<and> get_next_business_day \<lparr> year = 2026, month = 5, day = 1 \<rparr> = Inl AttributeError
   \<and> valid_date date_max
   \<and> get_next_business_day date_max = Inl OverflowError"
proof -
  have v: "valid_date \<lparr> year = 2026, month = 5, day = 1 \<rparr>"
    by (simp add: valid_date_def days_in_month_def)
  show ?thesis
    using get_next_business_day_raises [OF v] get_next_business_day_raises [OF valid_date_max]
      v valid_date_max
    by (simp add: date_max_def)
qed

theorem get_next_business_day_counterexample:
  "valid_date \<lparr> year = 9999, month = 12, day = 31 \<rparr>
   \<and> get_next_business_day \<lparr> year = 9999, month = 12, day = 31 \<rparr> = Inl OverflowError
   \<and> get_next_business_day \<lparr> year = 9999, month = 12, day = 31 \<rparr> \<noteq> Inl AttributeError"
  by (simp add: valid_date_def days_in_month_def get_next_business_day_def date_add_day_def
      date_less_def date_max_def)

subsection \<open>The fiscal year\<close>

text \<open>
  C3. For a date \<open>d\<close> and a start month \<open>m\<close> from 1 to 12 whose fiscal year
  \<open>get_fiscal_year d m\<close> lies from 1 to 9998, \<^verbatim>\<open>get_fiscal_year_range\<close> returns the
  first day of month \<open>m\<close> of that year and the day before the first day of month \<open>m\<close>
  one year later, and \<open>d\<close> lies between the two; for the fiscal years 0 and 9999 the
  constructor of a date raises ValueError.
\<close>

theorem get_fiscal_year_range_contains:
  assumes "valid_date d" and "1 \<le> m" and "m \<le> 12"
  shows "(if 1 \<le> get_fiscal_year d m \<and> get_fiscal_year d m \<le> 9998
          then \<exists>end_date.
                 get_fiscal_year_range d m =
                   Inr (\<lparr> year = get_fiscal_year d m, month = m, day = 1 \<rparr>, end_date)
                 \<and> valid_date end_date
                 \<and> toordinal end_date =
                     toordinal \<lparr> year = get_fiscal_year d m + 1, month = m, day = 1 \<rparr> - 1
                 \<and> \<not> date_less d \<lparr> year = get_fiscal_year d m, month = m, day = 1 \<rparr>
                 \<and> \<not> date_less end_date d
          else get_fiscal_year_range d m = Inl ValueError)"
proof -
  define fy where "fy = get_fiscal_year d m"
  let ?start = "\<lparr> year = fy, month = m, day = 1 \<rparr>"
  let ?first = "\<lparr> year = fy + 1, month = m, day = 1 \<rparr>"
  have dim: "28 \<le> days_in_month y m" for y
    using days_in_month_bounds [OF assms(2,3), of y] by simp
  have vd: "1 \<le> year d" "year d \<le> 9999" "1 \<le> month d" "month d \<le> 12" "1 \<le> day d"
    using assms(1) by (simp_all add: valid_date_def)
  have fy_range: "0 \<le> fy" "fy \<le> 9999"
    using vd by (simp_all add: fy_def get_fiscal_year_def Let_def)
  show ?thesis
  proof (cases "1 \<le> fy \<and> fy \<le> 9998")
    case False
    then consider "fy = 0" | "fy = 9999" using fy_range by linarith
    then have "get_fiscal_year_range d m = Inl ValueError"
      using dim assms(2,3)
      by cases (simp_all add: get_fiscal_year_range_def Let_def fy_def [symmetric]
          mk_date_def valid_date_def)
    with False show ?thesis by (simp add: fy_def)
  next
    case True
    have vs: "valid_date ?start" and vf: "valid_date ?first"
      using True dim [of fy] dim [of "fy + 1"] assms(2,3) by (simp_all add: valid_date_def)
    have "date_less date_min ?first"
      using True by (simp add: date_less_def date_min_def)
    then obtain end_date where e: "date_sub_day ?first = Inr end_date"
      using date_sub_day_ex by blast
    have ve: "valid_date end_date" and oe: "toordinal end_date = toordinal ?first - 1"
      using date_sub_day_valid [OF vf e] by simp_all
    have r: "get_fiscal_year_range d m = Inr (?start, end_date)"
      using vs vf e
      by (simp add: get_fiscal_year_range_def Let_def fy_def [symmetric] mk_date_def)
    have lo: "\<not> date_less d ?start"
      using vd by (auto simp: date_less_def fy_def get_fiscal_year_def Let_def)
    have "date_less d ?first"
      by (auto simp: date_less_def fy_def get_fiscal_year_def Let_def)
    then have "toordinal d < toordinal ?first"
      using date_less_toordinal [OF assms(1) vf] by simp
    then have "\<not> toordinal end_date < toordinal d" using oe by simp
    then have hi: "\<not> date_less end_date d"
      using date_less_toordinal [OF ve assms(1)] by blast
    from True r ve oe lo hi show ?thesis by (simp add: fy_def [symmetric])
  qed
qed

theorem get_fiscal_year_range_contains_witness:
  "get_fiscal_year_range \<lparr> year = 2026, month = 5, day = 1 \<rparr> 10 =
     Inr (\<lparr> year = 2025, month = 10, day = 1 \<rparr>, \<lparr> year = 2026, month = 9, day = 30 \<rparr>)
   \<and> get_fiscal_year_range \<lparr> year = 9999, month = 12, day = 1 \<rparr> 10 = Inl ValueError"
proof -
  have v: "valid_date \<lparr> year = 2026, month = 5, day = 1 \<rparr>"
    and w: "valid_date \<lparr> year = 9999, month = 12, day = 1 \<rparr>"
    by (simp_all add: valid_date_def days_in_month_def)
  have m: "(1::int) \<le> 10" "(10::int) \<le> 12" by simp_all
  have a: "get_fiscal_year_range \<lparr> year = 9999, month = 12, day = 1 \<rparr> 10 = Inl ValueError"
    using get_fiscal_year_range_contains [OF w m] by (simp add: get_fiscal_year_def)
  have b: "get_fiscal_year_range \<lparr> year = 2026, month = 5, day = 1 \<rparr> 10 =
     Inr (\<lparr> year = 2025, month = 10, day = 1 \<rparr>, \<lparr> year = 2026, month = 9, day = 30 \<rparr>)"
    by (simp add: get_fiscal_year_range_def get_fiscal_year_def mk_date_def valid_date_def
        days_in_month_def date_sub_day_def date_less_def date_min_def is_leap_def)
  have "\<exists>end_date. get_fiscal_year_range \<lparr> year = 2026, month = 5, day = 1 \<rparr> 10 =
      Inr (\<lparr> year = 2025, month = 10, day = 1 \<rparr>, end_date) \<and> valid_date end_date"
    using get_fiscal_year_range_contains [OF v m] by (auto simp: get_fiscal_year_def)
  with a b show ?thesis by simp
qed

theorem get_fiscal_year_range_counterexample:
  "valid_date \<lparr> year = 1, month = 1, day = 1 \<rparr>
   \<and> get_fiscal_year_range \<lparr> year = 1, month = 1, day = 1 \<rparr> 10 = Inl ValueError"
  by (simp add: get_fiscal_year_range_def get_fiscal_year_def mk_date_def valid_date_def
      days_in_month_def)

section \<open>DateTimeAgent: the policy deadline\<close>

text \<open>
  The Python objects that meet in \<^verbatim>\<open>check_policy_deadline\<close>: \<^verbatim>\<open>None\<close>, strings,
  dictionaries (the list of their items) and datetimes.
\<close>

datatype pyobj =
    PNone
  | PStr string
  | PDict "(string \<times> pyobj) list"
  | PDatetime datetime

text \<open>
  What the functions read from the standard library at a call: the clock
  (\<^verbatim>\<open>datetime.now(tz=timezone.utc)\<close>), the name of the local time zone, and the two
  conversions \<^verbatim>\<open>strftime\<close> and \<^verbatim>\<open>datetime.strptime\<close>, which raises ValueError on a
  string that does not fit the format.
\<close>

record py_runtime =
  rt_utc_now :: datetime
  rt_tzname :: string
  rt_strftime :: "datetime \<Rightarrow> string \<Rightarrow> string"
  rt_strptime :: "string \<Rightarrow> string \<Rightarrow> py_error + datetime"

text \<open>\<^verbatim>\<open>DateTimeUtils.get_date_time\<close> returns a dictionary.\<close>

definition get_date_time :: "py_runtime \<Rightarrow> pyobj" where
  "get_date_time rt =
     (let utc_now = rt_utc_now rt;
          days = [''Monday'', ''Tuesday'', ''Wednesday'', ''Thursday'', ''Friday'',
                  ''Saturday'', ''Sunday''];
          wd = weekday (dt_date utc_now);
          current_day = (if nat wd < length days then PStr (days ! nat wd) else PNone)
      in PDict [(''date'', PStr (rt_strftime rt utc_now ''%m/%d/%Y'')),
                (''time'', PStr (rt_strftime rt utc_now ''%H:%M:%S'')),
                (''day'', current_day),
                (''timezone'', PStr (rt_tzname rt))])"

text \<open>
  The comparison \<^verbatim>\<open>a >= b\<close>: two naive datetimes compare by date and time; a
  dictionary, a string or \<^verbatim>\<open>None\<close> with a datetime, and two dictionaries, have no
  order, and Python raises TypeError. (Two strings do compare; the handler never
  compares them.)
\<close>

fun py_ge :: "pyobj \<Rightarrow> pyobj \<Rightarrow> py_error + bool" where
  "py_ge (PDatetime a) (PDatetime b) = Inr (\<not> datetime_less a b)"
| "py_ge (PStr a) (PStr b) = Inr (\<not> ord.lexordp (\<lambda>c d. of_char c < (of_char d :: nat)) a b)"
| "py_ge _ _ = Inl TypeError"

record response =
  statusCode :: int
  body :: string

text \<open>The handler of \<^verbatim>\<open>/pdl\<close>.\<close>

definition check_policy_deadline :: "py_runtime \<Rightarrow> string \<Rightarrow> string \<Rightarrow> py_error + response" where
  "check_policy_deadline rt policy_name expiry_date =
     (let current_datetime = get_date_time rt in
      case rt_strptime rt expiry_date ''%Y-%m-%d %H:%M:%S'' of
        Inl e \<Rightarrow> Inl e
      | Inr expiry_datetime \<Rightarrow>
          (case py_ge current_datetime (PDatetime expiry_datetime) of
             Inl e \<Rightarrow> Inl e
           | Inr expired \<Rightarrow>
               if expired then
                 Inr \<lparr> statusCode = 200,
                       body = ''The '' @ policy_name @ '' policy has expired on ''
                                @ expiry_date \<rparr>
               else
                 Inr \<lparr> statusCode = 200,
                       body = ''The '' @ policy_name
                                @ '' policy is still valid and will expire on ''
                                @ expiry_date \<rparr>))"

text \<open>
  C9. For every policy name and every expiry date that \<^verbatim>\<open>strptime\<close> accepts,
  \<^verbatim>\<open>check_policy_deadline\<close> raises TypeError and returns neither of its messages: it
  compares the dictionary of \<^verbatim>\<open>get_date_time\<close> with a datetime.
\<close>

theorem check_policy_deadline_raises:
  assumes "rt_strptime rt expiry_date ''%Y-%m-%d %H:%M:%S'' = Inr expiry_datetime"
  shows "check_policy_deadline rt policy_name expiry_date = Inl TypeError
         \<and> (\<forall>r. check_policy_deadline rt policy_name expiry_date \<noteq> Inr r)"
  using assms by (simp add: check_policy_deadline_def get_date_time_def Let_def)

definition example_runtime :: py_runtime where
  "example_runtime =
     \<lparr> rt_utc_now = \<lparr> dt_date = \<lparr> year = 2026, month = 11, day = 4 \<rparr>, dt_time = 0 \<rparr>,
       rt_tzname = ''UTC'',
       rt_strftime = (\<lambda>t f. ''11/04/2026''),
       rt_strptime = (\<lambda>s f. if s = ''2022-01-01 00:00:00''
          then Inr \<lparr> dt_date = \<lparr> year = 2022, month = 1, day = 1 \<rparr>, dt_time = 0 \<rparr>
          else Inl ValueError) \<rparr>"

theorem check_policy_deadline_raises_witness:
  "check_policy_deadline example_runtime ''Investment'' ''2022-01-01 00:00:00''
     = Inl TypeError"
proof -
  have "rt_strptime example_runtime ''2022-01-01 00:00:00'' ''%Y-%m-%d %H:%M:%S''
      = Inr \<lparr> dt_date = \<lparr> year = 2022, month = 1, day = 1 \<rparr>, dt_time = 0 \<rparr>"
    by (simp add: example_runtime_def)
  from check_policy_deadline_raises [OF this, of "''Investment''"]
  show ?thesis by simp
qed

lemma check_policy_deadline_never_returns:
  "check_policy_deadline rt policy_name expiry_date \<noteq> Inr r"
  by (simp add: check_policy_deadline_def get_date_time_def Let_def split: sum.splits)

section \<open>AWSArtifactAgent: searching the catalog\<close>

text \<open>
  The operations of Python on Unicode text that \<^verbatim>\<open>search_reports\<close> calls:
  \<open>isspace\<close> holds of the characters at which \<^verbatim>\<open>str.split()\<close> cuts, \<open>isword\<close> of
  the characters of the class \<^verbatim>\<open>\w\<close> of a regular expression on \<^verbatim>\<open>str\<close>, and
  \<open>lower\<close> is \<^verbatim>\<open>str.lower\<close>, a function of the whole string (the lower case of a
  character may hold several characters and depend on its neighbours). They are tables
  of the Unicode database: inputs of the functions below, which are read for every
  choice of them.
\<close>

record text_ops =
  isspace :: "nat \<Rightarrow> bool"
  isword :: "nat \<Rightarrow> bool"
  lower :: "pystr \<Rightarrow> pystr"

text \<open>
  \<^verbatim>\<open>str.split()\<close>: the maximal runs of characters that are no whitespace; \<open>w\<close> is the
  run read so far.
\<close>

fun split_acc :: "(nat \<Rightarrow> bool) \<Rightarrow> pystr \<Rightarrow> pystr \<Rightarrow> pystr list" where
  "split_acc is_space [] w = (if w = [] then [] else [w])"
| "split_acc is_space (c # cs) w =
     (if is_space c then (if w = [] then split_acc is_space cs []
                          else w # split_acc is_space cs [])
      else split_acc is_space cs (w @ [c]))"

definition split_ws :: "text_ops \<Rightarrow> pystr \<Rightarrow> pystr list" where
  "split_ws ops s = split_acc (isspace ops) s []"

text \<open>
  \<^verbatim>\<open>\b\<close> at position \<open>p\<close> of \<open>t\<close>: exactly one of the characters before and after
  the position is a word character (outside the text there is none).
\<close>

definition word_boundary :: "text_ops \<Rightarrow> pystr \<Rightarrow> nat \<Rightarrow> bool" where
  "word_boundary ops t p =
     ((0 < p \<and> p \<le> length t \<and> isword ops (t ! (p - 1)))
        \<noteq> (p < length t \<and> isword ops (t ! p)))"

text \<open>
  The alternative \<^verbatim>\<open>\bw\b\<close>, with \<open>w\<close> escaped, matches at position \<open>p\<close>: the
  characters of an escaped word match themselves.
\<close>

definition match_word :: "text_ops \<Rightarrow> pystr \<Rightarrow> pystr \<Rightarrow> nat \<Rightarrow> bool" where
  "match_word ops w t p =
     (word_boundary ops t p \<and> take (length w) (drop p t) = w
        \<and> word_boundary ops t (p + length w))"

text \<open>
  \<^verbatim>\<open>len(re.findall(pattern, t))\<close> for the pattern \<^verbatim>\<open>\bw1\b|\bw2\b|...\<close>: the scan
  goes from left to right; at a position the first alternative that matches is taken
  and the scan goes on behind the match (one character further after an empty match).
\<close>

function findall_from :: "text_ops \<Rightarrow> pystr list \<Rightarrow> pystr \<Rightarrow> nat \<Rightarrow> nat" where
  "findall_from ops alts t p =
     (if length t < p then 0
      else (case find (\<lambda>w. match_word ops w t p) alts of
              None \<Rightarrow> findall_from ops alts t (p + 1)
            | Some w \<Rightarrow> 1 + findall_from ops alts t (p + max 1 (length w))))"
  by pat_completeness auto
termination
  by (relation "measure (\<lambda>(ops, alts, t, p). Suc (length t) - p)") auto

declare findall_from.simps [simp del]

text \<open>
  The pattern of no words is \<^verbatim>\<open>\b\b\<close>, one empty alternative.
\<close>

definition findall_count :: "text_ops \<Rightarrow> pystr list \<Rightarrow> pystr \<Rightarrow> nat" where
  "findall_count ops search_words t =
     findall_from ops (if search_words = [] then [[]] else search_words) t 0"

record search_entry =
  se_id :: pystr
  se_name :: pystr
  se_description :: pystr
  se_version :: int
  match_count :: int

fun match_loop :: "text_ops \<Rightarrow> pystr list \<Rightarrow> report list \<Rightarrow> search_entry list" where
  "match_loop ops search_words [] = []"
| "match_loop ops search_words (r # rs) =
     (let name_matches = findall_count ops search_words (lower ops (r_name r));
          description_matches = findall_count ops search_words (lower ops (r_description r));
          total_matches = name_matches + description_matches
      in if total_matches > 0 then
           \<lparr> se_id = r_id r, se_name = r_name r, se_description = r_description r,
             se_version = r_version r, match_count = int total_matches \<rparr>
             # match_loop ops search_words rs
         else match_loop ops search_words rs)"

text \<open>The slice \<^verbatim>\<open>xs[:n]\<close>; a negative \<open>n\<close> counts from the end.\<close>

definition slice_to :: "int \<Rightarrow> 'a list \<Rightarrow> 'a list" where
  "slice_to n xs = (if 0 \<le> n then take (nat n) xs else take (nat (int (length xs) + n)) xs)"

text \<open>
  The list \<^verbatim>\<open>matching_reports\<close> at the end of \<^verbatim>\<open>search_reports\<close>, from the list
  \<^verbatim>\<open>all_reports\<close>. \<open>order\<close> is the order in which Python runs through a set of
  words, given as the list of its elements; \<^verbatim>\<open>sort(key=..., reverse=True)\<close> is stable.
\<close>

definition matching_reports ::
  "text_ops \<Rightarrow> (pystr list \<Rightarrow> pystr list) \<Rightarrow> report list \<Rightarrow> pystr \<Rightarrow> int option
     \<Rightarrow> search_entry list" where
  "matching_reports ops order all_reports search_keywords max_results =
     (let search_words = order (split_ws ops (lower ops search_keywords));
          found = match_loop ops search_words all_reports;
          sorted_reports = sort_key (\<lambda>x. - match_count x) found
      in case max_results of
           None \<Rightarrow> sorted_reports
         | Some n \<Rightarrow> slice_to n sorted_reports)"

text \<open>
  \<^verbatim>\<open>search_reports(search_keywords, max_results)\<close>: \<^verbatim>\<open>self.paginator.paginate()\<close>
  names no page size, and the comprehension runs through all of its pages.
\<close>

definition search_reports ::
  "(search_entry list \<Rightarrow> 'j) \<Rightarrow> text_ops \<Rightarrow> (pystr list \<Rightarrow> pystr list)
     \<Rightarrow> (int option \<Rightarrow> page_iterator) \<Rightarrow> pystr \<Rightarrow> int option \<Rightarrow> py_error + 'j" where
  "search_reports dumps ops order paginator search_keywords max_results =
     (let default_max_results = 10 in
      if max_results \<noteq> None \<and> the max_results > default_max_results then Inl ValueError
      else
        (case fetch_all (paginator None) of
           Inl e \<Rightarrow> Inl e
         | Inr pages \<Rightarrow>
             (let all_reports = concat pages in
              Inr (dumps (matching_reports ops order all_reports search_keywords
                            max_results)))))"

text \<open>
  The whole-word occurrences of keywords in a text: at every position, the keywords
  that stand there between two word boundaries.
\<close>

definition occurrences_at :: "text_ops \<Rightarrow> pystr list \<Rightarrow> pystr \<Rightarrow> nat \<Rightarrow> nat" where
  "occurrences_at ops ws t p = length (filter (\<lambda>w. match_word ops w t p) (remdups ws))"

definition occurrences :: "text_ops \<Rightarrow> pystr list \<Rightarrow> pystr \<Rightarrow> nat" where
  "occurrences ops ws t = sum_list (map (occurrences_at ops ws t) [0..<Suc (length t)])"

text \<open>
  The operations on the texts whose characters are all ASCII (codes below 128), where
  whitespace is the codes 9 to 13 and 28 to 32, the word characters are the digits, the
  letters and the underscore, and the lower case of a capital letter is 32 codes above
  it. The examples below are ASCII.
\<close>

definition ascii_ops :: text_ops where
  "ascii_ops =
     \<lparr> isspace = (\<lambda>n. (9 \<le> n \<and> n \<le> 13) \<or> (28 \<le> n \<and> n \<le> 32)),
       isword = (\<lambda>n. (48 \<le> n \<and> n \<le> 57) \<or> (65 \<le> n \<and> n \<le> 90) \<or> n = 95
                      \<or> (97 \<le> n \<and> n \<le> 122)),
       lower = map (\<lambda>n. if 65 \<le> n \<and> n \<le> 90 then n + 32 else n) \<rparr>"

subsection \<open>Keywords of word characters\<close>

definition plain_word :: "text_ops \<Rightarrow> pystr \<Rightarrow> bool" where
  "plain_word ops w = (w \<noteq> [] \<and> list_all (isword ops) w)"

lemma match_word_chars:
  assumes "match_word ops w t p" and "list_all (isword ops) w" and "i < length w"
  shows "p + i < length t \<and> isword ops (t ! (p + i))"
proof -
  have eq: "take (length w) (drop p t) = w" using assms(1) by (simp add: match_word_def)
  have "length (take (length w) (drop p t)) = length w" by (simp only: eq)
  then have "length w \<le> length t - p" by simp
  with assms(3) have lt: "p + i < length t" by simp
  have "w ! i = take (length w) (drop p t) ! i" using eq by simp
  also have "\<dots> = t ! (p + i)" using assms(3) lt by simp
  finally have "t ! (p + i) = w ! i" by simp
  moreover have "isword ops (w ! i)"
    using assms(2,3) by (simp add: list_all_length)
  ultimately show ?thesis using lt by simp
qed

lemma match_word_end:
  assumes "match_word ops w t p" and "plain_word ops w"
  shows "p + length w \<le> length t"
    and "p + length w < length t \<Longrightarrow> \<not> isword ops (t ! (p + length w))"
proof -
  have w: "w \<noteq> []" "list_all (isword ops) w" using assms(2) by (simp_all add: plain_word_def)
  then have pos: "length w - 1 < length w" by (cases w) simp_all
  from match_word_chars [OF assms(1) w(2) pos]
  have last: "p + (length w - 1) < length t" "isword ops (t ! (p + (length w - 1)))"
    by simp_all
  show le: "p + length w \<le> length t" using last(1) pos by linarith
  have idx: "p + length w - 1 = p + (length w - 1)" using pos by linarith
  have b: "word_boundary ops t (p + length w)" using assms(1) by (simp add: match_word_def)
  show "\<not> isword ops (t ! (p + length w))" if "p + length w < length t"
    using b that last(2) le pos unfolding word_boundary_def idx by auto
qed

lemma match_word_unique:
  assumes "match_word ops w t p" and "match_word ops w' t p"
    and "plain_word ops w" and "plain_word ops w'"
  shows "w = w'"
proof -
  have len: "length w = length w'"
  proof (rule ccontr)
    assume ne: "length w \<noteq> length w'"
    have *: False
      if m: "match_word ops u t p" "match_word ops v t p"
        and pl: "plain_word ops u" "plain_word ops v"
        and lt: "length u < length v" for u v
    proof -
      have "p + length u < length t \<and> isword ops (t ! (p + length u))"
        using match_word_chars [OF m(2) _ lt] pl(2) by (simp add: plain_word_def)
      then show False using match_word_end(2) [OF m(1) pl(1)] by simp
    qed
    from ne consider "length w < length w'" | "length w' < length w" by linarith
    then show False
      using * [of w w'] * [of w' w] assms by cases simp_all
  qed
  have "w = take (length w) (drop p t)" using assms(1) by (simp add: match_word_def)
  also have "\<dots> = w'" using assms(2) len by (simp add: match_word_def)
  finally show ?thesis .
qed

lemma no_match_inside:
  assumes "match_word ops w t p" and "plain_word ops w" and "plain_word ops w'"
    and "p < q" and "q < p + length w"
  shows "\<not> match_word ops w' t q"
proof
  assume m: "match_word ops w' t q"
  have w: "list_all (isword ops) w" and w': "list_all (isword ops) w'" "0 < length w'"
    using assms(2,3) by (simp_all add: plain_word_def)
  have "q - 1 - p < length w" using assms(4,5) by linarith
  from match_word_chars [OF assms(1) w this]
  have before: "isword ops (t ! (q - 1))" using assms(4) by simp
  from match_word_chars [OF m w'(1) w'(2)]
  have here: "q < length t" "isword ops (t ! q)" by simp_all
  have "word_boundary ops t q" using m by (simp add: match_word_def)
  then show False
    using before here assms(4) by (auto simp: word_boundary_def)
qed

lemma find_None_filter:
  "find P ws = None \<Longrightarrow> filter P ws = []"
  by (induction ws) (auto split: if_splits)

lemma find_Some_member:
  "find P ws = Some w \<Longrightarrow> w \<in> set ws \<and> P w"
  by (induction ws) (auto split: if_splits)

lemma filter_unique_length:
  assumes "distinct ws" and "w \<in> set ws" and "P w"
    and "\<And>v. v \<in> set ws \<Longrightarrow> P v \<Longrightarrow> v = w"
  shows "length (filter P ws) = 1"
proof -
  have d: "distinct (filter P ws)" using assms(1) by simp
  have "v = w" if "v \<in> set (filter P ws)" for v
    using that assms(4) by simp
  moreover have "w \<in> set (filter P ws)" using assms(2,3) by simp
  ultimately have "set (filter P ws) = {w}" by blast
  then have "card (set (filter P ws)) = 1" by simp
  then show ?thesis using distinct_card [OF d] by simp
qed

lemma upt_split:
  assumes "a \<le> b" and "b \<le> c"
  shows "[a..<c] = [a..<b] @ [b..<c]"
  using upt_add_eq_append [OF assms(1), of "c - b"] assms(2) by simp

lemma sum_list_zero:
  "(\<And>x. x \<in> set xs \<Longrightarrow> f x = (0::nat)) \<Longrightarrow> sum_list (map f xs) = 0"
  by (induction xs) simp_all

lemma findall_from_plain:
  assumes "distinct ws" and "list_all (plain_word ops) ws"
  shows "findall_from ops ws t p =
      sum_list (map (\<lambda>q. length (filter (\<lambda>w. match_word ops w t q) ws))
        [p..<Suc (length t)])"
  using assms
proof (induction ops ws t p rule: findall_from.induct)
  case (1 ops alts t p)
  note plain = "1.prems"(2) and dist = "1.prems"(1)
  let ?f = "\<lambda>q. length (filter (\<lambda>w. match_word ops w t q) alts)"
  show ?case
  proof (cases "length t < p")
    case True
    then show ?thesis by (subst findall_from.simps) simp
  next
    case False
    then have upt: "[p..<Suc (length t)] = p # [p + 1..<Suc (length t)]"
      by (simp add: upt_conv_Cons)
    show ?thesis
    proof (cases "find (\<lambda>w. match_word ops w t p) alts")
      case None
      then have "?f p = 0" by (simp add: find_None_filter)
      moreover have "findall_from ops alts t (p + 1) =
          sum_list (map ?f [p + 1..<Suc (length t)])"
        using "1.IH"(1) [OF False None dist plain] .
      ultimately show ?thesis
        using False None upt by (subst findall_from.simps) simp
    next
      case (Some w)
      then have w: "w \<in> set alts" "match_word ops w t p"
        using find_Some_member [of "\<lambda>w. match_word ops w t p" alts w] by simp_all
      then have pw: "plain_word ops w" using plain by (simp add: list_all_iff)
      then have pos: "0 < length w" by (simp add: plain_word_def)
      have le: "p + length w \<le> length t" using match_word_end(1) [OF w(2) pw] .
      have one: "?f p = 1"
      proof (rule filter_unique_length [of alts w "\<lambda>w. match_word ops w t p",
            OF dist w(1) w(2)])
        fix v assume "v \<in> set alts" and "match_word ops v t p"
        then show "v = w"
          using match_word_unique [of ops v t p w] w(2) pw plain by (simp add: list_all_iff)
      qed
      have inside: "sum_list (map ?f [p + 1..<p + length w]) = 0"
      proof (rule sum_list_zero)
        fix q assume "q \<in> set [p + 1..<p + length w]"
        then have q: "p < q" "q < p + length w" by simp_all
        have "\<not> match_word ops v t q" if "v \<in> set alts" for v
          using no_match_inside [OF w(2) pw _ q, of v] plain that by (simp add: list_all_iff)
        then show "?f q = 0" by (simp add: filter_empty_conv)
      qed
      have split: "[p + 1..<Suc (length t)] =
          [p + 1..<p + length w] @ [p + length w..<Suc (length t)]"
      proof (rule upt_split)
        show "p + 1 \<le> p + length w" using pos by linarith
        show "p + length w \<le> Suc (length t)" using le by linarith
      qed
      have "findall_from ops alts t (p + max 1 (length w)) =
          sum_list (map ?f [p + max 1 (length w)..<Suc (length t)])"
        using "1.IH"(2) [OF False Some dist plain] .
      moreover have ml: "max 1 (length w) = length w"
        using pw by (cases w) (simp_all add: plain_word_def)
      ultimately have rest: "findall_from ops alts t (p + length w) =
          sum_list (map ?f [p + length w..<Suc (length t)])"
        by simp
      have "findall_from ops alts t p = 1 + findall_from ops alts t (p + length w)"
        using False Some ml by (subst findall_from.simps) simp
      moreover have "sum_list (map ?f [p..<Suc (length t)]) =
          ?f p + (sum_list (map ?f [p + 1..<p + length w])
                  + sum_list (map ?f [p + length w..<Suc (length t)]))"
        by (simp only: upt split list.map sum_list.Cons map_append sum_list_append)
      ultimately show ?thesis
        unfolding one inside rest by simp
    qed
  qed
qed

lemma split_acc_nonempty:
  "w \<in> set (split_acc is_space s w0) \<Longrightarrow> w \<noteq> []"
  by (induction s arbitrary: w0) (auto split: if_splits)

lemma split_ws_nonempty: "w \<in> set (split_ws ops s) \<Longrightarrow> w \<noteq> []"
  unfolding split_ws_def by (rule split_acc_nonempty)

text \<open>
  The order in which Python runs through \<^verbatim>\<open>set(words)\<close>: every word once.
\<close>

definition set_order :: "(pystr list \<Rightarrow> pystr list) \<Rightarrow> bool" where
  "set_order order = (\<forall>xs. set (order xs) = set xs \<and> distinct (order xs))"

lemma length_filter_same_set:
  assumes "distinct xs" and "distinct ys" and "set xs = set ys"
  shows "length (filter P xs) = length (filter P ys)"
  using assms by (simp add: distinct_length_filter)

lemma findall_count_occurrences:
  assumes "set_order order" and "ws \<noteq> []" and "list_all (list_all (isword ops)) ws"
    and "\<And>w. w \<in> set ws \<Longrightarrow> w \<noteq> []"
  shows "findall_count ops (order ws) t = occurrences ops ws t"
proof -
  have o: "set (order ws) = set ws" "distinct (order ws)"
    using assms(1) by (simp_all add: set_order_def)
  have ne: "order ws \<noteq> []" using o(1) assms(2) by (metis set_empty)
  have plain: "list_all (plain_word ops) (order ws)"
    using assms(3,4) o(1) by (simp add: list_all_iff plain_word_def)
  have "findall_count ops (order ws) t = findall_from ops (order ws) t 0"
    using ne by (simp add: findall_count_def)
  also have "\<dots> = sum_list (map (\<lambda>q. length (filter (\<lambda>w. match_word ops w t q) (order ws)))
      [0..<Suc (length t)])"
    using o(2) plain by (rule findall_from_plain)
  also have "\<dots> = sum_list (map (occurrences_at ops ws t) [0..<Suc (length t)])"
  proof -
    have "length (filter (\<lambda>w. match_word ops w t q) (order ws)) = occurrences_at ops ws t q"
      for q
      unfolding occurrences_at_def
      by (rule length_filter_same_set) (simp_all add: o)
    then show ?thesis by (simp only:)
  qed
  finally show ?thesis by (simp only: occurrences_def)
qed

text \<open>
  The whole-word occurrences of the keywords in the name and in the description of a
  report, both in lower case, and the entry of a report found.
\<close>

definition keyword_matches :: "text_ops \<Rightarrow> pystr \<Rightarrow> report \<Rightarrow> nat" where
  "keyword_matches ops search_keywords r =
     occurrences ops (split_ws ops (lower ops search_keywords)) (lower ops (r_name r))
       + occurrences ops (split_ws ops (lower ops search_keywords))
           (lower ops (r_description r))"

definition found_entry :: "text_ops \<Rightarrow> pystr \<Rightarrow> report \<Rightarrow> search_entry" where
  "found_entry ops search_keywords r =
     \<lparr> se_id = r_id r, se_name = r_name r, se_description = r_description r,
       se_version = r_version r,
       match_count = int (keyword_matches ops search_keywords r) \<rparr>"

lemma match_loop_filter:
  assumes "\<And>t. findall_count ops ws t = occurrences ops (split_ws ops (lower ops kw)) t"
  shows "match_loop ops ws rs =
      map (found_entry ops kw) (filter (\<lambda>r. 0 < keyword_matches ops kw r) rs)"
  by (induction rs) (simp_all add: assms Let_def found_entry_def keyword_matches_def)

lemma sorted_desc:
  "sorted_wrt (\<lambda>a b. b \<le> a) (map match_count (sort_key (\<lambda>x. - match_count x) xs))"
proof -
  have "sorted (map (\<lambda>x. - match_count x) (sort_key (\<lambda>x. - match_count x) xs))"
    by (rule sorted_sort_key)
  then show ?thesis by (simp add: sorted_wrt_map)
qed

lemma matching_reports_None:
  assumes "set_order order" and "split_ws ops (lower ops kw) \<noteq> []"
    and "list_all (list_all (isword ops)) (split_ws ops (lower ops kw))"
  shows "matching_reports ops order all_reports kw None =
      sort_key (\<lambda>x. - match_count x)
        (map (found_entry ops kw) (filter (\<lambda>r. 0 < keyword_matches ops kw r) all_reports))"
proof -
  have "findall_count ops (order (split_ws ops (lower ops kw))) t =
      occurrences ops (split_ws ops (lower ops kw)) t"
    for t
    using assms by (rule findall_count_occurrences) (rule split_ws_nonempty)
  then have "match_loop ops (order (split_ws ops (lower ops kw))) all_reports =
      map (found_entry ops kw) (filter (\<lambda>r. 0 < keyword_matches ops kw r) all_reports)"
    by (rule match_loop_filter)
  then show ?thesis by (simp add: matching_reports_def)
qed

lemma matching_reports_Some:
  "0 \<le> n \<Longrightarrow>
   matching_reports ops order all_reports kw (Some n) =
     take (nat n) (matching_reports ops order all_reports kw None)"
  by (simp add: matching_reports_def slice_to_def Let_def)

text \<open>
  C1. Whatever the tables of Unicode are, for keywords that in lower case are made of
  word characters (the class \<^verbatim>\<open>\w\<close>), at least one of them, and a paginator whose
  requests yield the pages of a catalog, \<^verbatim>\<open>search_reports\<close> finds exactly the reports
  of the catalog whose name or description, in lower case, holds a whole-word occurrence
  of a keyword in lower case; the \<^verbatim>\<open>match_count\<close> of an entry is the number of these
  occurrences in the name plus those in the description; the entries are in the order
  of non-increasing \<^verbatim>\<open>match_count\<close>; with \<open>0 \<le> max_results \<le> 10\<close> the first
  \<open>max_results\<close> of them are returned, and a \<open>max_results\<close> above 10 raises ValueError.
\<close>

theorem search_reports_ranked:
  assumes "set_order order"
    and "paginator None = map Inr pages"
    and "split_ws ops (lower ops search_keywords) \<noteq> []"
    and "list_all (list_all (isword ops)) (split_ws ops (lower ops search_keywords))"
    and "0 \<le> n" and "n \<le> 10"
  shows "\<exists>found.
           search_reports dumps ops order paginator search_keywords None = Inr (dumps found)
         \<and> mset found =
             mset (map (\<lambda>r. \<lparr> se_id = r_id r, se_name = r_name r,
                               se_description = r_description r, se_version = r_version r,
                               match_count = int (keyword_matches ops search_keywords r) \<rparr>)
                    (filter (\<lambda>r. 0 < keyword_matches ops search_keywords r) (concat pages)))
         \<and> sorted_wrt (\<lambda>a b. b \<le> a) (map match_count found)
         \<and> search_reports dumps ops order paginator search_keywords (Some n) =
             Inr (dumps (take (nat n) found))
         \<and> int (length (take (nat n) found)) \<le> n
         \<and> (10 < k \<longrightarrow>
              search_reports dumps ops order paginator search_keywords (Some k) =
                Inl ValueError)"
proof -
  let ?full = "matching_reports ops order (concat pages) search_keywords None"
  have fe: "found_entry ops search_keywords =
      (\<lambda>r. \<lparr> se_id = r_id r, se_name = r_name r,
              se_description = r_description r, se_version = r_version r,
              match_count = int (keyword_matches ops search_keywords r) \<rparr>)"
    by (rule ext) (simp add: found_entry_def)
  have full: "?full = sort_key (\<lambda>x. - match_count x)
      (map (found_entry ops search_keywords)
        (filter (\<lambda>r. 0 < keyword_matches ops search_keywords r) (concat pages)))"
    using assms(1,3,4) by (rule matching_reports_None)
  have a: "search_reports dumps ops order paginator search_keywords None = Inr (dumps ?full)"
    by (simp add: search_reports_def assms(2))
  have b: "mset ?full = mset (map (\<lambda>r. \<lparr> se_id = r_id r, se_name = r_name r,
              se_description = r_description r, se_version = r_version r,
              match_count = int (keyword_matches ops search_keywords r) \<rparr>)
      (filter (\<lambda>r. 0 < keyword_matches ops search_keywords r) (concat pages)))"
    unfolding full fe by simp
  have c: "sorted_wrt (\<lambda>a b. b \<le> a) (map match_count ?full)"
    unfolding full by (rule sorted_desc)
  have d: "search_reports dumps ops order paginator search_keywords (Some n) =
      Inr (dumps (take (nat n) ?full))"
    using assms(5,6) by (simp add: search_reports_def assms(2) matching_reports_Some)
  have e: "int (length (take (nat n) ?full)) \<le> n"
    using assms(5) by simp
  have f: "10 < k \<longrightarrow>
      search_reports dumps ops order paginator search_keywords (Some k) = Inl ValueError"
    by (simp add: search_reports_def)
  from a b c d e f show ?thesis by (intro exI [of _ ?full] conjI)
qed

lemma client_paginate_example:
  "client_paginate 50 example_catalog None = map Inr [example_catalog]"
  by (simp add: client_paginate_def paginate.simps example_catalog_def)

lemma matching_reports_example:
  "map (\<lambda>e. (se_id e, match_count e))
     (matching_reports ascii_ops remdups example_catalog (py_str ''fedramp SOC'') None) =
   [(py_str ''r1'', 2), (py_str ''r2'', 2), (py_str ''r3'', 1)]"
  by code_simp

theorem search_reports_ranked_witness:
  "search_reports (map se_id) ascii_ops remdups (client_paginate 50 example_catalog)
     (py_str ''fedramp SOC'') (Some 2) = Inr [py_str ''r1'', py_str ''r2'']"
proof -
  have o: "set_order remdups" by (simp add: set_order_def)
  have w: "split_ws ascii_ops (lower ascii_ops (py_str ''fedramp SOC'')) \<noteq> []"
    by code_simp
  have p: "list_all (list_all (isword ascii_ops))
      (split_ws ascii_ops (lower ascii_ops (py_str ''fedramp SOC'')))"
    by code_simp
  have n: "(0::int) \<le> 2" "(2::int) \<le> 10" by simp_all
  have r: "search_reports (map se_id) ascii_ops remdups (client_paginate 50 example_catalog)
      (py_str ''fedramp SOC'') None = Inr [py_str ''r1'', py_str ''r2'', py_str ''r3'']"
    using arg_cong [OF matching_reports_example, of "map fst"]
    by (simp add: search_reports_def client_paginate_example comp_def)
  obtain found :: "search_entry list" where
    f: "search_reports (map se_id) ascii_ops remdups (client_paginate 50 example_catalog)
          (py_str ''fedramp SOC'') None = Inr (map se_id found)"
    and s: "search_reports (map se_id) ascii_ops remdups (client_paginate 50 example_catalog)
          (py_str ''fedramp SOC'') (Some 2) = Inr (map se_id (take (nat 2) found))"
    using search_reports_ranked [where order = remdups
        and paginator = "client_paginate 50 example_catalog" and pages = "[example_catalog]"
        and ops = ascii_ops and search_keywords = "py_str ''fedramp SOC''" and n = 2
        and dumps = "map se_id" and k = 11, OF o client_paginate_example w p n]
    by blast
  from f r have "map se_id found = [py_str ''r1'', py_str ''r2'', py_str ''r3'']" by simp
  then have "map se_id (take (nat 2) found) = [py_str ''r1'', py_str ''r2'']"
    by (simp add: take_map [symmetric] numeral_2_eq_2)
  with s show ?thesis by simp
qed

theorem search_reports_counterexample:
  "search_reports (map match_count) ascii_ops remdups
     (client_paginate 50
        [\<lparr> r_id = py_str ''r1'', r_name = py_str ''a-a-a'', r_version = 1,
           r_description = [] \<rparr>])
     (py_str ''a-a'') None = Inr [1]
   \<and> keyword_matches ascii_ops (py_str ''a-a'')
       \<lparr> r_id = py_str ''r1'', r_name = py_str ''a-a-a'', r_version = 1,
          r_description = [] \<rparr> = 2
   \<and> search_reports length ascii_ops remdups (client_paginate 50 example_catalog)
       (py_str ''soc'') (Some (- 1)) = Inr 1"
  by code_simp

end
